theory Spec2Isabelle
  imports
    Complex_Main
    "HOL-Library.AList"
    "HOL-Library.Multiset"
    "HOL-Library.List_Lexorder"
    "HOL-Library.Char_ord"
    "HOL-Library.Log_Nat"
    "HOL-Library.Word"
begin

section \<open>Data model of genconfig\<close>

text \<open>
  The Go structs \<^verbatim>\<open>castat\<close> and \<^verbatim>\<open>masquerade\<close>. A \<^verbatim>\<open>*castat\<close> is an
  address into a store of castat cells, because \<^verbatim>\<open>coalesceMasquerades\<close> mutates the
  \<^verbatim>\<open>freq\<close> field through pointers that masquerades and maps share. Masquerade
  structs are never mutated and are kept by value. \<^verbatim>\<open>grabCerts\<close>, the only sender
  on \<^verbatim>\<open>masqueradesCh\<close>, sets \<^verbatim>\<open>RootCA\<close> in every masquerade, so there is no nil
  address.

  The field \<^verbatim>\<open>freq\<close> is a \<^verbatim>\<open>float64\<close> in the source. A finite
  \<^verbatim>\<open>float64\<close> is the rational it denotes, and every floating-point operation of
  the source is the exact operation followed by the rounding \<open>float64\<close> defined
  below. A division by zero (which in IEEE-754 yields an infinity or a NaN rather than
  a panic) is reported as the outcome \<open>DivisionByZero\<close>, so that a regular result
  certifies that every division had a nonzero denominator.
\<close>

record castat =
  CommonName :: string
  Cert :: string
  freq :: rat

type_synonym ptr = nat
type_synonym store = "ptr \<Rightarrow> castat"

record masquerade =
  Domain :: string
  IpAddress :: string
  RootCA :: ptr

datatype fault = DivisionByZero | IndexOutOfRange

subsection \<open>Rounding to float64\<close>

text \<open>
  IEEE-754 binary64 with the default rounding: a nonzero value is \<open>m * 2 ^ k\<close> with a
  significand \<open>m\<close> of 53 bits, and the result of an operation is the value nearest
  to the exact result, the one with an even significand when two are equally near.
  \<open>expo x\<close> is the exponent of the binade of a positive \<open>x\<close>, the \<open>e\<close> with
  \<open>2 ^ e \<le> x < 2 ^ (e + 1)\<close>; \<open>rne\<close> rounds to the nearest integer, halves to
  the even one. The range of the exponent is not bounded here: the numbers the
  aggregator computes are counts below \<open>2 ^ 63\<close>, their products with 100 and
  quotients of these, all far inside the range of normal numbers.
\<close>

definition expo :: "rat \<Rightarrow> int" where
  "expo x =
     (if 1 \<le> x then int (floorlog 2 (nat \<lfloor>x\<rfloor>)) - 1
      else - int (floorlog 2 (nat (\<lceil>1 / x\<rceil> - 1))))"

definition rne :: "rat \<Rightarrow> int" where
  "rne y =
     (let f = \<lfloor>y\<rfloor>; r = y - of_int f
      in if r < 1 / 2 then f
         else if 1 / 2 < r then f + 1
         else if even f then f else f + 1)"

definition float64 :: "rat \<Rightarrow> rat" where
  "float64 x =
     (if x = 0 then 0
      else let a = \<bar>x\<bar>; u = 2 powi (expo a - 52)
           in sgn x * (of_int (rne (a / u)) * u))"

subsection \<open>Go maps and their iteration order\<close>

text \<open>
  A \<^verbatim>\<open>map[string]V\<close> is an association list with distinct keys: lookup is
  \<^const>\<open>map_of\<close>, assignment \<^verbatim>\<open>m[k] = v\<close> is \<^const>\<open>AList.update\<close>. Go leaves the
  order of \<^verbatim>\<open>range\<close> over a map unspecified; \<open>range_order\<close> takes the choices of
  the runtime as a list of numbers and visits the entries in the order they select
  (with no choices left, in the order stored). Every result below holds for all
  choices.
\<close>

type_synonym 'v gomap = "(string \<times> 'v) list"

fun range_order :: "nat list \<Rightarrow> 'a list \<Rightarrow> 'a list" where
  "range_order cs [] = []"
| "range_order [] (x # xs) = x # xs"
| "range_order (c # cs) (x # xs) =
     (let i = c mod length (x # xs)
      in (x # xs) ! i # range_order cs (take i (x # xs) @ drop (Suc i) (x # xs)))"

section \<open>The CA trust aggregator: coalesceMasquerades\<close>

text \<open>
  The state of the first loop: the local variables \<^verbatim>\<open>count\<close>, \<^verbatim>\<open>allCAs\<close> and
  \<^verbatim>\<open>allMasquerades\<close>, and the store of castat cells. \<^verbatim>\<open>count\<close> is a Go
  \<^verbatim>\<open>int\<close> that only counts received masquerades, so it is a natural number here.
\<close>

record agg =
  count :: nat
  allCAs :: "ptr gomap"
  allMasquerades :: "masquerade list"
  heap :: store

text \<open>
  One iteration of \<^verbatim>\<open>for masquerade := range masqueradesCh\<close>: look the castat up by
  the PEM text of the masquerade's root CA, fall back to the masquerade's own castat
  when the map has none, add one to its \<^verbatim>\<open>freq\<close> (a \<^verbatim>\<open>float64\<close> addition),
  store it under its own \<^verbatim>\<open>Cert\<close> and append the masquerade.
\<close>

definition coalesce_step :: "masquerade \<Rightarrow> agg \<Rightarrow> agg" where
  "coalesce_step m s =
     (let ca = (case map_of (allCAs s) (Cert (heap s (RootCA m))) of
                  None \<Rightarrow> RootCA m
                | Some p \<Rightarrow> p);
          h' = (heap s)(ca := (heap s ca)\<lparr>freq := float64 (freq (heap s ca) + 1)\<rparr>)
      in \<lparr>count = count s + 1,
          allCAs = AList.update (Cert (h' ca)) ca (allCAs s),
          allMasquerades = allMasquerades s @ [m],
          heap = h'\<rparr>)"

fun coalesce_loop :: "masquerade list \<Rightarrow> agg \<Rightarrow> agg" where
  "coalesce_loop [] s = s"
| "coalesce_loop (m # ms) s = coalesce_loop ms (coalesce_step m s)"

text \<open>The coalescing phase: the first loop run from the initial values of the locals.\<close>

definition coalesce :: "masquerade list \<Rightarrow> store \<Rightarrow> agg" where
  "coalesce masqueradesCh h0 =
     coalesce_loop masqueradesCh
       \<lparr>count = 0, allCAs = [], allMasquerades = [], heap = h0\<rparr>"

text \<open>
  The second loop, \<^verbatim>\<open>for _, ca := range allCAs\<close>, over the entries in the order the
  runtime visits them: make \<^verbatim>\<open>freq\<close> relative, then keep the castat when it exceeds
  \<^verbatim>\<open>*minFreq\<close>. The assignment \<^verbatim>\<open>float64(ca.freq*100) / float64(count)\<close> is a
  \<^verbatim>\<open>float64\<close> product, the conversion of the integer \<^verbatim>\<open>count\<close> and a
  \<^verbatim>\<open>float64\<close> quotient; each of the three rounds.
\<close>

fun trust_loop ::
  "rat \<Rightarrow> nat \<Rightarrow> (string \<times> ptr) list \<Rightarrow> ptr gomap \<Rightarrow> store \<Rightarrow> fault + (ptr gomap \<times> store)"
where
  "trust_loop minFreq n [] trustedCAs h = Inr (trustedCAs, h)"
| "trust_loop minFreq n ((k, ca) # rest) trustedCAs h =
     (if n = 0 then Inl DivisionByZero
      else
        let h' = h(ca := (h ca)\<lparr>freq :=
                     float64 (float64 (freq (h ca) * 100) / float64 (of_nat n))\<rparr>)
        in trust_loop minFreq n rest
             (if minFreq < freq (h' ca)
              then AList.update (Cert (h' ca)) ca trustedCAs
              else trustedCAs)
             h')"

text \<open>The third loop: keep the masquerades whose root CA's PEM text is a key of
  \<^verbatim>\<open>trustedCAs\<close>.\<close>

fun pick_loop ::
  "ptr gomap \<Rightarrow> store \<Rightarrow> masquerade list \<Rightarrow> masquerade list \<Rightarrow> masquerade list"
where
  "pick_loop trustedCAs h [] trustedMasquerades = trustedMasquerades"
| "pick_loop trustedCAs h (m # ms) trustedMasquerades =
     pick_loop trustedCAs h ms
       (case map_of trustedCAs (Cert (h (RootCA m))) of
          None \<Rightarrow> trustedMasquerades
        | Some _ \<Rightarrow> trustedMasquerades @ [m])"

text \<open>
  \<^verbatim>\<open>coalesceMasquerades\<close>: \<open>masqueradesCh\<close> is the sequence of masquerades received
  from the channel until it is closed, \<open>ord\<close> the runtime's choices for the range over
  \<^verbatim>\<open>allCAs\<close>. The result is the pair the source returns, with the final store.
\<close>

definition coalesceMasquerades ::
  "rat \<Rightarrow> nat list \<Rightarrow> masquerade list \<Rightarrow> store
     \<Rightarrow> fault + (ptr gomap \<times> masquerade list \<times> store)"
where
  "coalesceMasquerades minFreq ord masqueradesCh h0 =
     (let s = coalesce masqueradesCh h0 in
      case trust_loop minFreq (count s) (range_order ord (allCAs s)) [] (heap s) of
        Inl e \<Rightarrow> Inl e
      | Inr (trustedCAs, h) \<Rightarrow>
          Inr (trustedCAs, pick_loop trustedCAs h (allMasquerades s) [], h))"

section \<open>The model builder: buildModel\<close>

text \<open>
  \<^verbatim>\<open>sort.Sort\<close> belongs to Go's standard library. Its contract is that it rearranges
  the slice so that no element is \<^verbatim>\<open>Less\<close> than one before it, consulting only
  \<^verbatim>\<open>Len\<close>, \<^verbatim>\<open>Less\<close> and \<^verbatim>\<open>Swap\<close>, with no promise of stability. It is
  modelled by an insertion sort over the \<^verbatim>\<open>Less\<close> of the sorted type.
\<close>

fun insert_less :: "('a \<Rightarrow> 'a \<Rightarrow> bool) \<Rightarrow> 'a \<Rightarrow> 'a list \<Rightarrow> 'a list" where
  "insert_less lt x [] = [x]"
| "insert_less lt x (y # ys) =
     (if lt y x then y # insert_less lt x ys else x # y # ys)"

fun Sort :: "('a \<Rightarrow> 'a \<Rightarrow> bool) \<Rightarrow> 'a list \<Rightarrow> 'a list" where
  "Sort lt [] = []"
| "Sort lt (x # xs) = insert_less lt x (Sort lt xs)"

text \<open>
  \<^verbatim>\<open>ByDomain.Less\<close> compares the \<^verbatim>\<open>Domain\<close> strings with Go's \<^verbatim>\<open><\<close>, the
  lexicographic order of their bytes, which is the order of \<^typ>\<open>string\<close> here.
  \<^verbatim>\<open>ByFreq.Less\<close> reads \<^verbatim>\<open>freq\<close> through the two pointers and uses \<^verbatim>\<open>>\<close>.
\<close>

definition ByDomain_Less :: "masquerade \<Rightarrow> masquerade \<Rightarrow> bool" where
  "ByDomain_Less a b \<longleftrightarrow> Domain a < Domain b"

definition ByFreq_Less :: "store \<Rightarrow> ptr \<Rightarrow> ptr \<Rightarrow> bool" where
  "ByFreq_Less h a b \<longleftrightarrow> freq (h a) > freq (h b)"

text \<open>The type \<^verbatim>\<open>filter\<close> of the source, \<^verbatim>\<open>map[string]bool\<close>.\<close>

type_synonym domain_filter = "string \<rightharpoonup> bool"

record model =
  cas :: "ptr list"
  masquerades :: "masquerade list"
  proxiedsites :: domain_filter

text \<open>
  \<^verbatim>\<open>buildModel\<close>: \<open>ord\<close> holds the runtime's choices for the range over \<^verbatim>\<open>cas\<close>,
  \<open>proxiedSites\<close> is the package variable of that name and \<open>h\<close> the store the
  pointers of \<^verbatim>\<open>casList\<close> are read in.
\<close>

definition buildModel ::
  "domain_filter \<Rightarrow> nat list \<Rightarrow> store \<Rightarrow> ptr gomap \<Rightarrow> masquerade list \<Rightarrow> model"
where
  "buildModel proxiedSites ord h cas' masquerades' =
     (let casList = map snd (range_order ord cas')
      in \<lparr>cas = Sort (ByFreq_Less h) casList,
          masquerades = Sort ByDomain_Less masquerades',
          proxiedsites = proxiedSites\<rparr>)"

section \<open>The domain prober: grabCerts\<close>

text \<open>
  What the worker sees of the libraries it calls. A \<^verbatim>\<open>x509.Certificate\<close> is known
  by its subject common name and its encoded bytes; \<^verbatim>\<open>tlsdialer.ConnWithTimings\<close> by
  its \<^verbatim>\<open>VerifiedChains\<close> and by the text of \<^verbatim>\<open>ResolvedAddr.IP.String()\<close>; a keyman
  certificate by \<^verbatim>\<open>PEMEncoded()\<close>. A Go \<^verbatim>\<open>error\<close> is its message.
  \<^verbatim>\<open>tlsdialer.DialForTimings\<close> and \<^verbatim>\<open>keyman.LoadCertificateFromX509\<close> are parameters
  of the model: the first maps the dialled address to an error (connect, handshake,
  verification or timeout failure) or a connection, the second a certificate to an
  error or a keyman certificate.
\<close>

record x509_Certificate =
  Subject_CommonName :: string
  Raw :: string

record ConnWithTimings =
  VerifiedChains :: "x509_Certificate list list"
  ResolvedAddr_IP_String :: string

record keyman_Certificate =
  PEMEncoded :: string

type_synonym dialer = "string \<Rightarrow> string + ConnWithTimings"
type_synonym loader = "x509_Certificate \<Rightarrow> string + keyman_Certificate"

text \<open>
  \<^verbatim>\<open>strings.Replace(s, old, new, -1)\<close> for an \<^verbatim>\<open>old\<close> that is a single byte, as in
  the one call of the source: every occurrence of the byte is replaced.
\<close>

fun Replace :: "string \<Rightarrow> char \<Rightarrow> string \<Rightarrow> string" where
  "Replace [] old new = []"
| "Replace (c # cs) old new =
     (if c = old then new @ Replace cs old new else c # Replace cs old new)"

text \<open>
  What a worker does to the world: the lines it logs, the addresses it hands to
  \<^verbatim>\<open>DialForTimings\<close>, the masquerades it sends on \<^verbatim>\<open>masqueradesCh\<close> and the castat
  cells it allocates (\<open>next_ptr\<close> is the first unused address).
\<close>

datatype log_line = Tracef string | Errorf string

record world =
  logged :: "log_line list"
  dialed :: "string list"
  sent :: "masquerade list"
  castats :: store
  next_ptr :: ptr

definition init_world :: world where
  "init_world =
     \<lparr>logged = [], dialed = [], sent = [],
      castats = (\<lambda>_. \<lparr>CommonName = [], Cert = [], freq = 0\<rparr>),
      next_ptr = 0\<rparr>"

text \<open>
  The body of \<^verbatim>\<open>for domain := range domainsCh\<close>. A runtime panic (an index out of
  range) is the result \<open>Inl\<close>, with the world as it was when the panic happened; it
  ends the loop, as it ends the goroutine and the process. Closing the connection
  (\<^verbatim>\<open>cwt.Conn.Close()\<close>) leaves no trace in the world.
\<close>

definition grabCert ::
  "domain_filter \<Rightarrow> dialer \<Rightarrow> loader \<Rightarrow> string \<Rightarrow> world \<Rightarrow> (fault \<times> world) + world"
where
  "grabCert blacklist DialForTimings LoadCertificateFromX509 domain w =
     (case blacklist domain of
        Some _ \<Rightarrow>
          Inr (w\<lparr>logged := logged w @
                 [Tracef (''Domain '' @ domain @ '' is blacklisted, skipping'')]\<rparr>)
      | None \<Rightarrow>
         (let w1 = w\<lparr>logged := logged w @ [Tracef (''Grabbing certs for domain: '' @ domain)],
                      dialed := dialed w @ [domain @ '':443'']\<rparr>
          in (case DialForTimings (domain @ '':443'') of
                Inl err \<Rightarrow>
                  Inr (w1\<lparr>logged := logged w1 @
                         [Errorf (''Unable to dial domain '' @ domain @ '': '' @ err)]\<rparr>)
              | Inr cwt \<Rightarrow>
                 (case VerifiedChains cwt of
                    [] \<Rightarrow> Inl (IndexOutOfRange, w1)
                  | chain # _ \<Rightarrow>
                     (if chain = [] then Inl (IndexOutOfRange, w1)
                      else
                       (let rootCA = last chain
                        in (case LoadCertificateFromX509 rootCA of
                              Inl err \<Rightarrow>
                                Inr (w1\<lparr>logged := logged w1 @
                                       [Errorf (''Unablet to load keyman certificate: '' @ err)]\<rparr>)
                            | Inr rootCert \<Rightarrow>
                               (let ca = next_ptr w1;
                                    cell = \<lparr>CommonName = Subject_CommonName rootCA,
                                            Cert = Replace (PEMEncoded rootCert)
                                                     (CHR 0x0A) [CHR 0x5C, CHR ''n''],
                                            freq = 0\<rparr>;
                                    m = \<lparr>Domain = domain,
                                         IpAddress = ResolvedAddr_IP_String cwt,
                                         RootCA = ca\<rparr>
                                in Inr (w1\<lparr>castats := fun_upd (castats w1) ca cell,
                                           next_ptr := Suc ca,
                                           sent := sent w1 @ [m]\<rparr>)))))))))"

text \<open>
  \<^verbatim>\<open>grabCerts\<close>, for the domains one worker receives from \<^verbatim>\<open>domainsCh\<close>, in the
  order it receives them.
\<close>

fun grabCerts ::
  "domain_filter \<Rightarrow> dialer \<Rightarrow> loader \<Rightarrow> string list \<Rightarrow> world \<Rightarrow> (fault \<times> world) + world"
where
  "grabCerts blacklist DialForTimings LoadCertificateFromX509 [] w = Inr w"
| "grabCerts blacklist DialForTimings LoadCertificateFromX509 (domain # rest) w =
     (case grabCert blacklist DialForTimings LoadCertificateFromX509 domain w of
        Inl e \<Rightarrow> Inl e
      | Inr w' \<Rightarrow> grabCerts blacklist DialForTimings LoadCertificateFromX509 rest w')"

text \<open>The world a run ends in, however it ends.\<close>

fun final_world :: "(fault \<times> world) + world \<Rightarrow> world" where
  "final_world (Inl (f, w)) = w"
| "final_world (Inr w) = w"

section \<open>The proxy client's request director\<close>

text \<open>
  \<^verbatim>\<open>net.IP\<close> is a byte slice. \<^verbatim>\<open>IP.To4\<close> and \<^verbatim>\<open>IP.IsLoopback\<close> are the standard
  library's: an address of four bytes, or of sixteen with the IPv4-in-IPv6 prefix, is
  loopback when its first IPv4 byte is 127; any other address is loopback when it is
  \<^verbatim>\<open>::1\<close>.
\<close>

type_synonym IP = "8 word list"

definition To4 :: "IP \<Rightarrow> IP option" where
  "To4 ip =
     (if length ip = 4 then Some ip
      else if length ip = 16 \<and> take 10 ip = replicate 10 0 \<and> ip ! 10 = 0xff \<and> ip ! 11 = 0xff
      then Some (drop 12 ip)
      else None)"

definition IPv6loopback :: IP where
  "IPv6loopback = replicate 15 0 @ [1]"

definition IsLoopback :: "IP \<Rightarrow> bool" where
  "IsLoopback ip =
     (case To4 ip of
        Some ip4 \<Rightarrow> ip4 ! 0 = 127
      | None \<Rightarrow> ip = IPv6loopback)"

text \<open>
  \<^verbatim>\<open>strings.Split(s, sep)\<close> for a separator of one byte: the pieces of \<open>s\<close> between
  the occurrences of the byte.
\<close>

fun Split :: "string \<Rightarrow> char \<Rightarrow> string list" where
  "Split [] sep = [[]]"
| "Split (c # cs) sep =
     (if c = sep then [] # Split cs sep
      else case Split cs sep of
             [] \<Rightarrow> [[c]]
           | piece # pieces \<Rightarrow> (c # piece) # pieces)"

text \<open>
  \<^verbatim>\<open>net.ResolveIPAddr\<close> is a parameter: from the network name and the host it gives
  an error or the address.
\<close>

type_synonym resolver = "string \<Rightarrow> string \<Rightarrow> string + IP"

definition isNotLoopback :: "resolver \<Rightarrow> string \<Rightarrow> fault + bool" where
  "isNotLoopback ResolveIPAddr addr =
     (case Split addr (CHR '':'') of
        [] \<Rightarrow> Inl IndexOutOfRange
      | host # _ \<Rightarrow>
         (case ResolveIPAddr ''ip4'' host of
             Inl err \<Rightarrow> Inr False
           | Inr ip \<Rightarrow> Inr (\<not> IsLoopback ip)))"

text \<open>
  An \<^verbatim>\<open>http.Request\<close> as the director sees it, and the fields of \<^verbatim>\<open>Client\<close> it
  reads (\<^verbatim>\<open>ShouldDumpHeaders\<close> comes from the embedded \<^verbatim>\<open>ProxyConfig\<close>). The
  protocol's \<^verbatim>\<open>RewriteRequest\<close> changes the request in place; here it returns the
  changed request. The director's result is the request it leaves behind and the calls
  it made, in order.
\<close>

record Request =
  Host :: string
  Header :: "(string \<times> string list) list"

record Client =
  ShouldProxyLoopback :: bool
  ShouldDumpHeaders :: bool
  Protocol_RewriteRequest :: "Request \<Rightarrow> Request"

datatype call =
  RewriteRequest_call Request
| dumpHeaders_call string "(string \<times> string list) list"

definition Director :: "Client \<Rightarrow> resolver \<Rightarrow> Request \<Rightarrow> fault + (Request \<times> call list)" where
  "Director client ResolveIPAddr req =
     (case (if ShouldProxyLoopback client then Inr True
            else isNotLoopback ResolveIPAddr (Host req)) of
        Inl f \<Rightarrow> Inl f
      | Inr rewrite \<Rightarrow>
          let (req1, calls1) =
                (if rewrite
                 then (Protocol_RewriteRequest client req, [RewriteRequest_call req])
                 else (req, []));
              calls2 =
                (if ShouldDumpHeaders client
                 then calls1 @ [dumpHeaders_call ''Request'' (Header req1)]
                 else calls1)
          in Inr (req1, calls2))"

section \<open>Notions used in the proofs\<close>

text \<open>
  The number of masquerades of a stream whose root CA has the PEM text \<open>k\<close>: the
  occurrence count of the certificate \<open>k\<close>.
\<close>

definition occurrences :: "store \<Rightarrow> masquerade list \<Rightarrow> string \<Rightarrow> nat" where
  "occurrences h0 ms k = length (filter (\<lambda>m. Cert (h0 (RootCA m)) = k) ms)"

text \<open>
  The map is keyed when its keys are distinct and every entry is stored under the
  \<^verbatim>\<open>Cert\<close> of the castat it points to.
\<close>

definition keyed :: "ptr gomap \<Rightarrow> store \<Rightarrow> bool" where
  "keyed al h \<longleftrightarrow> distinct (map fst al) \<and> (\<forall>(k, p) \<in> set al. Cert (h p) = k)"

text \<open>The assignment of the second loop, on one cell.\<close>

definition relative :: "nat \<Rightarrow> castat \<Rightarrow> castat" where
  "relative n c = c\<lparr>freq := float64 (float64 (freq c * 100) / float64 (of_nat n))\<rparr>"

text \<open>The store the second loop leaves behind: the cells of \<^verbatim>\<open>allCAs\<close> made
  relative, all others untouched.\<close>

definition trusted_store :: "masquerade list \<Rightarrow> store \<Rightarrow> store" where
  "trusted_store ms h0 =
     (\<lambda>q. if q \<in> snd ` set (allCAs (coalesce ms h0))
          then relative (length ms) (heap (coalesce ms h0) q)
          else heap (coalesce ms h0) q)"

text \<open>
  The invariant of the first loop after the masquerades \<open>seen\<close>, from the store
  \<open>h0\<close>: the keys are the certificates seen, no \<^verbatim>\<open>Cert\<close> has changed, only the
  cells of the map have changed, and each of them holds its occurrence count.
\<close>

definition counted :: "store \<Rightarrow> masquerade list \<Rightarrow> agg \<Rightarrow> bool" where
  "counted h0 seen s \<longleftrightarrow>
     keyed (allCAs s) (heap s) \<and>
     fst ` set (allCAs s) = (\<lambda>m. Cert (h0 (RootCA m))) ` set seen \<and>
     (\<forall>q. Cert (heap s q) = Cert (h0 q)) \<and>
     (\<forall>q. q \<notin> snd ` set (allCAs s) \<longrightarrow> heap s q = h0 q) \<and>
     (\<forall>(k, p) \<in> set (allCAs s). freq (heap s p) = of_nat (occurrences h0 seen k))"

text \<open>
  A domain is untouched in a world when its address was never handed to
  \<^verbatim>\<open>DialForTimings\<close> and no masquerade was sent for it.
\<close>

definition untouched :: "string \<Rightarrow> world \<Rightarrow> bool" where
  "untouched d w \<longleftrightarrow> d @ '':443'' \<notin> set (dialed w) \<and> d \<notin> Domain ` set (sent w)"

text \<open>
  The masquerades sent so far point to allocated cells whose \<^verbatim>\<open>freq\<close> is the zero
  value.
\<close>

definition fresh :: "world \<Rightarrow> bool" where
  "fresh w \<longleftrightarrow> (\<forall>m \<in> set (sent w). RootCA m < next_ptr w \<and> freq (castats w (RootCA m)) = 0)"

text \<open>The requests that were handed to \<^verbatim>\<open>RewriteRequest\<close>, from the director's calls.\<close>

definition rewritten :: "call list \<Rightarrow> Request list" where
  "rewritten calls = concat (map (\<lambda>c. case c of RewriteRequest_call r \<Rightarrow> [r] | dumpHeaders_call _ _ \<Rightarrow> []) calls)"



section \<open>Concrete inputs\<close>

text \<open>A stream of three masquerades over two root CAs, for concrete evaluation.\<close>

definition ex_store :: store where
  "ex_store =
     (\<lambda>p. if p = 2 then \<lparr>CommonName = ''Root B'', Cert = ''PEM-B'', freq = 0\<rparr>
          else \<lparr>CommonName = ''Root A'', Cert = ''PEM-A'', freq = 0\<rparr>)"

definition ex_stream :: "masquerade list" where
  "ex_stream =
     [\<lparr>Domain = ''b.example'', IpAddress = ''192.0.2.2'', RootCA = 0\<rparr>,
      \<lparr>Domain = ''a.example'', IpAddress = ''192.0.2.1'', RootCA = 1\<rparr>,
      \<lparr>Domain = ''c.example'', IpAddress = ''192.0.2.3'', RootCA = 2\<rparr>]"

text \<open>The store of the example after the frequency loop.\<close>

definition ex_relative :: store where
  "ex_relative =
     (\<lambda>p. if p = 2
          then \<lparr>CommonName = ''Root B'', Cert = ''PEM-B'',
                freq = 4691249611844267 / 140737488355328\<rparr>
          else if p = 0
          then \<lparr>CommonName = ''Root A'', Cert = ''PEM-A'',
                freq = 4691249611844267 / 70368744177664\<rparr>
          else \<lparr>CommonName = ''Root A'', Cert = ''PEM-A'', freq = 0\<rparr>)"

text \<open>
  A blacklist, a dialler and a certificate loader for concrete evaluation:
  \<^verbatim>\<open>a.example\<close> presents a chain of two certificates, \<^verbatim>\<open>badcert.example\<close> a
  chain whose root does not load, every other host times out.
\<close>

definition ex_blacklist :: domain_filter where
  "ex_blacklist = [''blacklisted.example'' \<mapsto> True]"

definition ex_leaf :: x509_Certificate where
  "ex_leaf = \<lparr>Subject_CommonName = ''a.example'', Raw = ''leaf''\<rparr>"

definition ex_root :: x509_Certificate where
  "ex_root = \<lparr>Subject_CommonName = ''Root A'', Raw = ''root''\<rparr>"

definition ex_bad :: x509_Certificate where
  "ex_bad = \<lparr>Subject_CommonName = ''Root X'', Raw = []\<rparr>"

definition ex_dial :: dialer where
  "ex_dial addr =
     (if addr = ''a.example:443''
      then Inr \<lparr>VerifiedChains = [[ex_leaf, ex_root]], ResolvedAddr_IP_String = ''192.0.2.1''\<rparr>
      else if addr = ''badcert.example:443''
      then Inr \<lparr>VerifiedChains = [[ex_leaf, ex_bad]], ResolvedAddr_IP_String = ''192.0.2.9''\<rparr>
      else Inl ''i/o timeout'')"

definition ex_load :: loader where
  "ex_load c =
     (if Raw c = [] then Inl ''malformed certificate''
      else Inr \<lparr>PEMEncoded = ''BEGIN'' @ [CHR 0x0A] @ Raw c @ [CHR 0x0A] @ ''END''\<rparr>)"

text \<open>A resolver, a rewriting protocol and a client for concrete evaluation.\<close>

definition ex_resolver :: resolver where
  "ex_resolver network host =
     (if network = ''ip4'' \<and> host = ''localhost'' then Inr [127, 0, 0, 1]
      else if network = ''ip4'' \<and> host = ''www.example'' then Inr [192, 0, 2, 7]
      else Inl ''no such host'')"

definition ex_rewrite :: "Request \<Rightarrow> Request" where
  "ex_rewrite r = r\<lparr>Host := ''front.example'', Header := (''X-Original-Host'', [Host r]) # Header r\<rparr>"

definition ex_client :: Client where
  "ex_client = \<lparr>ShouldProxyLoopback = False, ShouldDumpHeaders = False,
                Protocol_RewriteRequest = ex_rewrite\<rparr>"

definition ex_request :: "string \<Rightarrow> Request" where
  "ex_request h = \<lparr>Host = h, Header = []\<rparr>"

section \<open>Results about float64 rounding\<close>

lemma rne_of_int [simp]: "rne (of_int m) = m"
  by (simp add: rne_def)

lemma rne_lower: "\<lfloor>y\<rfloor> \<le> rne y"
  by (simp add: rne_def Let_def)

lemma rne_upper: "rne y \<le> \<lfloor>y\<rfloor> + 1"
  by (simp add: rne_def Let_def)

lemma rne_mono: "x \<le> y \<Longrightarrow> rne x \<le> rne y"
proof -
  assume xy: "x \<le> y"
  have fl: "\<lfloor>x\<rfloor> \<le> \<lfloor>y\<rfloor>" using xy by (rule floor_mono)
  show ?thesis
  proof (cases "\<lfloor>x\<rfloor> = \<lfloor>y\<rfloor>")
    case True
    then have "x - of_int \<lfloor>x\<rfloor> \<le> y - of_int \<lfloor>y\<rfloor>" using xy by simp
    then show ?thesis using True by (auto simp: rne_def Let_def)
  next
    case False
    then have "\<lfloor>x\<rfloor> + 1 \<le> \<lfloor>y\<rfloor>" using fl by simp
    then show ?thesis using rne_upper[of x] rne_lower[of y] by linarith
  qed
qed

lemma rne_ge: "of_int m \<le> y \<Longrightarrow> m \<le> rne y"
  using rne_mono[of "of_int m" y] by simp

lemma rne_le: "y \<le> of_int m \<Longrightarrow> rne y \<le> m"
  using rne_mono[of y "of_int m"] by simp

lemma expo_bounds:
  assumes "0 < x"
  shows "2 powi expo x \<le> x \<and> x < 2 powi (expo x + 1)"
proof (cases "1 \<le> x")
  case True
  define m where "m = nat \<lfloor>x\<rfloor>"
  define k where "k = floorlog 2 m"
  have "1 \<le> \<lfloor>x\<rfloor>" using True by simp
  then have m1: "1 \<le> m" unfolding m_def by linarith
  have b: "2 ^ (k - 1) \<le> m" "m < 2 ^ k"
    using floorlog_bounds[of m 2] m1 by (simp_all add: k_def)
  have k1: "1 \<le> k" using b(2) m1 by (cases k) auto
  have mx: "of_nat m \<le> x" "x < of_nat m + 1"
    using True by (simp_all add: m_def) linarith+
  have e: "expo x = int k - 1" using True by (simp add: expo_def k_def m_def)
  have p1: "(2::rat) powi (int k - 1) = 2 ^ (k - 1)"
    using k1 by (simp add: power_int_def nat_diff_distrib')
  have p2: "(2::rat) powi (int k - 1 + 1) = 2 ^ k"
    by (simp add: power_int_def)
  have "(of_nat (2 ^ (k - 1)) :: rat) \<le> of_nat m"
    using b(1) by (rule of_nat_mono)
  then have lo: "(2::rat) ^ (k - 1) \<le> of_nat m" by simp
  have "Suc m \<le> 2 ^ k" using b(2) by simp
  then have "(of_nat (Suc m) :: rat) \<le> of_nat (2 ^ k)" by (rule of_nat_mono)
  then have hi: "(of_nat m :: rat) + 1 \<le> 2 ^ k" by simp
  show ?thesis using lo hi mx unfolding e p1 p2 by linarith
next
  case False
  define y where "y = 1 / x"
  have y1: "1 < y" using False assms by (simp add: y_def)
  define m where "m = nat (\<lceil>y\<rceil> - 1)"
  define k where "k = floorlog 2 m"
  have c2: "2 \<le> \<lceil>y\<rceil>" using y1 by (simp add: le_ceiling_iff)
  have m1: "1 \<le> m" using c2 unfolding m_def by linarith
  have my: "of_nat m < y" "y \<le> of_nat m + 1"
    using c2 by (simp_all add: m_def) linarith+
  have b: "2 ^ (k - 1) \<le> m" "m < 2 ^ k"
    using floorlog_bounds[of m 2] m1 by (simp_all add: k_def)
  have k1: "1 \<le> k" using b(2) m1 by (cases k) auto
  have e: "expo x = - int k" using False by (simp add: expo_def k_def m_def y_def)
  have "(of_nat (2 ^ (k - 1)) :: rat) \<le> of_nat m"
    using b(1) by (rule of_nat_mono)
  then have lo: "(2::rat) ^ (k - 1) \<le> of_nat m" by simp
  have "Suc m \<le> 2 ^ k" using b(2) by simp
  then have "(of_nat (Suc m) :: rat) \<le> of_nat (2 ^ k)" by (rule of_nat_mono)
  then have hi: "(of_nat m :: rat) + 1 \<le> 2 ^ k" by simp
  have yk: "y \<le> 2 ^ k" "2 ^ (k - 1) < y" using lo hi my by linarith+
  have p1: "(2::rat) powi (- int k) = 1 / 2 ^ k"
    by (simp add: power_int_def field_simps)
  have p2: "(2::rat) powi (- int k + 1) = 1 / 2 ^ (k - 1)"
    using k1 by (simp add: power_int_def field_simps nat_diff_distrib')
  have xy: "x = 1 / y" using assms by (simp add: y_def)
  have ypos: "0 < y" using y1 by simp
  have "1 / 2 ^ k \<le> 1 / y" using yk(1) ypos by (simp add: frac_le)
  then have a: "1 / 2 ^ k \<le> x" unfolding xy .
  have "1 / y < 1 / 2 ^ (k - 1)" using yk(2) by (simp add: frac_less2)
  then have c: "x < 1 / 2 ^ (k - 1)" unfolding xy .
  show ?thesis unfolding e p1 p2 using a c by simp
qed

lemma two_powi_less_imp: "(2::rat) powi i < 2 powi j \<Longrightarrow> i < j"
proof (rule ccontr)
  assume a: "(2::rat) powi i < 2 powi j" "\<not> i < j"
  then have "(2::rat) powi j \<le> 2 powi i" by (intro power_int_increasing) auto
  with a(1) show False by simp
qed

lemma rne_near:
  assumes "of_int m - 1 / 2 < y" "y < of_int m + 1 / 2"
  shows "rne y = m"
proof (cases "of_int m \<le> y")
  case True
  then have "\<lfloor>y\<rfloor> = m" using assms(2) by (intro floor_unique) auto
  then show ?thesis using assms(2) by (simp add: rne_def Let_def)
next
  case False
  then have "\<lfloor>y\<rfloor> = m - 1" using assms(1) by (intro floor_unique) auto
  then show ?thesis using assms(1) by (simp add: rne_def Let_def)
qed

lemma expo_unique:
  assumes "0 < x" "2 powi e \<le> x" "x < 2 powi (e + 1)"
  shows "expo x = e"
proof -
  have b: "2 powi expo x \<le> x" "x < 2 powi (expo x + 1)"
    using expo_bounds[OF assms(1)] by simp_all
  have "(2::rat) powi e < 2 powi (expo x + 1)" using assms(2) b(2) by simp
  then have 1: "e < expo x + 1" by (rule two_powi_less_imp)
  have "(2::rat) powi expo x < 2 powi (e + 1)" using assms(3) b(1) by simp
  then have "expo x < e + 1" by (rule two_powi_less_imp)
  with 1 show ?thesis by simp
qed

lemma float64_0 [simp]: "float64 0 = 0"
  by (simp add: float64_def)

lemma float64_pos:
  "0 < x \<Longrightarrow> float64 x = of_int (rne (x / 2 powi (expo x - 52))) * 2 powi (expo x - 52)"
  by (simp add: float64_def Let_def)

lemma float64_at:
  assumes "0 < x" "2 powi e \<le> x" "x < 2 powi (e + 1)"
  shows "float64 x = of_int (rne (x / 2 powi (e - 52))) * 2 powi (e - 52)"
  using float64_pos[OF assms(1)] expo_unique[OF assms] by simp

lemma float64_binade:
  assumes "0 < x"
  shows "2 powi expo x \<le> float64 x \<and> float64 x \<le> 2 powi (expo x + 1)"
proof -
  define e where "e = expo x"
  define u :: rat where "u = 2 powi (e - 52)"
  have u: "0 < u" by (simp add: u_def)
  have b: "2 powi e \<le> x" "x < 2 powi (e + 1)"
    using expo_bounds[OF assms] by (simp_all add: e_def)
  have lo: "(2::rat) powi e = 2 ^ 52 * u"
    unfolding u_def by (simp add: power_int_diff)
  have hi: "(2::rat) powi (e + 1) = 2 ^ 53 * u"
    unfolding u_def by (simp add: power_int_diff power_int_add)
  have "of_int (2 ^ 52) \<le> x / u" using b(1) u unfolding lo by (simp add: pos_le_divide_eq)
  then have l: "2 ^ 52 \<le> rne (x / u)" by (rule rne_ge)
  have "x / u \<le> of_int (2 ^ 53)" using b(2) u unfolding hi by (simp add: pos_divide_le_eq)
  then have h: "rne (x / u) \<le> 2 ^ 53" by (rule rne_le)
  have "(of_int (2 ^ 52) :: rat) \<le> of_int (rne (x / u))" using l by (simp only: of_int_le_iff)
  then have 1: "2 ^ 52 * u \<le> of_int (rne (x / u)) * u" using u by simp
  have "(of_int (rne (x / u)) :: rat) \<le> of_int (2 ^ 53)" using h by (simp only: of_int_le_iff)
  then have 2: "of_int (rne (x / u)) * u \<le> 2 ^ 53 * u" using u by simp
  show ?thesis
    unfolding float64_pos[OF assms] e_def[symmetric] u_def[symmetric] lo hi using 1 2 by simp
qed

lemma float64_nonneg: "0 \<le> x \<Longrightarrow> 0 \<le> float64 x"
proof (cases "x = 0")
  case False
  assume "0 \<le> x"
  then have "0 < x" using False by simp
  from float64_binade[OF this] have "2 powi expo x \<le> float64 x" by simp
  moreover have "(0::rat) < 2 powi expo x" by simp
  ultimately show ?thesis by linarith
qed simp

lemma expo_mono:
  assumes "0 < x" "x \<le> y"
  shows "expo x \<le> expo y"
proof (rule ccontr)
  assume "\<not> expo x \<le> expo y"
  then have "expo y + 1 \<le> expo x" by simp
  then have "(2::rat) powi (expo y + 1) \<le> 2 powi expo x"
    by (intro power_int_increasing) auto
  moreover have "y < 2 powi (expo y + 1)" "2 powi expo x \<le> x"
    using expo_bounds[of x] expo_bounds[of y] assms by simp_all
  ultimately show False using assms(2) by linarith
qed

lemma float64_mono:
  assumes "0 \<le> x" "x \<le> y"
  shows "float64 x \<le> float64 y"
proof (cases "x = 0")
  case True
  then show ?thesis using assms float64_nonneg[of y] by simp
next
  case False
  then have x: "0 < x" and y: "0 < y" using assms by simp_all
  show ?thesis
  proof (cases "expo x = expo y")
    case True
    have u: "(0::rat) < 2 powi (expo y - 52)" by simp
    have "x / 2 powi (expo y - 52) \<le> y / 2 powi (expo y - 52)"
      using assms(2) u by (simp add: divide_right_mono)
    then have "rne (x / 2 powi (expo y - 52)) \<le> rne (y / 2 powi (expo y - 52))"
      by (rule rne_mono)
    then have "(of_int (rne (x / 2 powi (expo y - 52))) :: rat)
        \<le> of_int (rne (y / 2 powi (expo y - 52)))" by (simp only: of_int_le_iff)
    then show ?thesis
      unfolding float64_pos[OF x] float64_pos[OF y] True using u by simp
  next
    case False
    then have "expo x + 1 \<le> expo y" using expo_mono[OF x assms(2)] by simp
    then have "(2::rat) powi (expo x + 1) \<le> 2 powi expo y"
      by (intro power_int_increasing) auto
    then show ?thesis using float64_binade[OF x] float64_binade[OF y] by linarith
  qed
qed

lemma float64_of_nat:
  assumes "n < 2 ^ 53"
  shows "float64 (of_nat n) = of_nat n"
proof (cases "n = 0")
  case True
  then show ?thesis by simp
next
  case False
  define x :: rat where "x = of_nat n"
  define e where "e = expo x"
  have x: "0 < x" using False by (simp add: x_def)
  have b: "2 powi e \<le> x" "x < 2 powi (e + 1)"
    using expo_bounds[OF x] by (simp_all add: e_def)
  have "(of_nat n :: rat) < of_nat (2 ^ 53)" using assms by (simp only: of_nat_less_iff)
  then have x53: "x < 2 powi 53" by (simp add: x_def)
  have x1: "2 powi 0 \<le> x" using False by (simp add: x_def Suc_le_eq flip: of_nat_Suc)
  have "(2::rat) powi e < 2 powi 53" using b(1) x53 by linarith
  then have "e < 53" by (rule two_powi_less_imp)
  then have e52: "e \<le> 52" by simp
  have "(2::rat) powi 0 < 2 powi (e + 1)" using b(2) x1 by linarith
  then have "0 < e + 1" by (rule two_powi_less_imp)
  then have e0: "0 \<le> e" by simp
  define k where "k = nat (52 - e)"
  have u: "(2::rat) powi (e - 52) = 1 / 2 ^ k"
    using e52 by (simp add: k_def power_int_def field_simps)
  have "x / (1 / 2 ^ k) = of_int (int n * 2 ^ k)" by (simp add: x_def)
  then have "rne (x / (1 / 2 ^ k)) = int n * 2 ^ k" by (simp only: rne_of_int)
  then show ?thesis
    unfolding float64_pos[OF x, unfolded e_def[symmetric] u] x_def[symmetric]
    by (simp add: x_def)
qed

lemma float64_200_3: "float64 (200 / 3) = 4691249611844267 / 70368744177664"
proof -
  have "rne (200 / 3 / 2 powi (6 - 52)) = 4691249611844267"
    by (rule rne_near) simp_all
  then show ?thesis
    by (subst float64_at[where e = 6]) simp_all
qed

lemma float64_100_3: "float64 (100 / 3) = 4691249611844267 / 140737488355328"
proof -
  have "rne (100 / 3 / 2 powi (5 - 52)) = 4691249611844267"
    by (rule rne_near) simp_all
  then show ?thesis
    by (subst float64_at[where e = 5]) simp_all
qed

lemma float64_numeral [simp]:
  "numeral w < (2::nat) ^ 53 \<Longrightarrow> float64 (numeral w) = numeral w"
  using float64_of_nat[of "numeral w"] by simp

lemma float64_1 [simp]: "float64 1 = 1"
  using float64_of_nat[of 1] by simp

lemma rne_error: "\<bar>of_int (rne y) - y\<bar> \<le> 1 / 2"
proof -
  have "of_int \<lfloor>y\<rfloor> \<le> y" "y < of_int \<lfloor>y\<rfloor> + 1" by linarith+
  then show ?thesis by (auto simp: rne_def Let_def abs_le_iff)
qed

lemma float64_error:
  assumes "0 < x"
  shows "\<bar>float64 x - x\<bar> \<le> x / 2 ^ 53"
proof -
  define u :: rat where "u = 2 powi (expo x - 52)"
  have u: "0 < u" by (simp add: u_def)
  have "2 powi expo x \<le> x" using expo_bounds[OF assms] by simp
  moreover have "(2::rat) powi expo x = 2 ^ 52 * u" by (simp add: u_def power_int_diff)
  ultimately have ux: "u / 2 \<le> x / 2 ^ 53" by simp
  have "float64 x - x = (of_int (rne (x / u)) - x / u) * u"
    using u unfolding float64_pos[OF assms] u_def[symmetric] by (simp add: algebra_simps)
  then have "\<bar>float64 x - x\<bar> = \<bar>of_int (rne (x / u)) - x / u\<bar> * u"
    using u by (simp add: abs_mult)
  also have "\<dots> \<le> 1 / 2 * u"
    using rne_error[of "x / u"] u by (intro mult_right_mono) auto
  finally show ?thesis using ux by simp
qed

section \<open>Results about the aggregator\<close>

subsection \<open>The iteration order is a rearrangement, and any rearrangement\<close>

lemma mset_range_order: "mset (range_order cs xs) = mset xs"
proof (induction cs xs rule: range_order.induct)
  case (3 c cs x xs)
  define ys where "ys = x # xs"
  define i where "i = c mod length ys"
  have i: "i < length ys" unfolding i_def ys_def by simp
  have IH: "mset (range_order cs (take i ys @ drop (Suc i) ys)) = mset (take i ys @ drop (Suc i) ys)"
    using "3.IH"[OF refl] unfolding i_def ys_def .
  have unf: "range_order (c # cs) ys = ys ! i # range_order cs (take i ys @ drop (Suc i) ys)"
    unfolding ys_def i_def by (simp only: range_order.simps Let_def)
  have "mset ys = mset (take i ys @ ys ! i # drop (Suc i) ys)"
    using id_take_nth_drop[OF i] by (rule arg_cong[where f = mset])
  also have "\<dots> = add_mset (ys ! i) (mset (take i ys @ drop (Suc i) ys))"
    by simp
  finally have "mset (range_order (c # cs) ys) = mset ys"
    using IH unf by simp
  then show ?case unfolding ys_def .
qed simp_all

lemma set_range_order: "set (range_order cs xs) = set xs"
  using mset_range_order[of cs xs] by (metis set_mset_mset)

lemma distinct_map_range_order:
  "distinct (map f (range_order cs xs)) = distinct (map f xs)"
  by (metis mset_range_order mset_map mset_eq_imp_distinct_iff)

lemma range_order_complete:
  "mset ys = mset xs \<Longrightarrow> \<exists>cs. range_order cs xs = ys"
proof (induction ys arbitrary: xs)
  case Nil
  then show ?case by simp
next
  case (Cons y ys)
  have "y \<in> set xs"
    using Cons.prems by (metis list.set_intros(1) set_mset_mset)
  then obtain i where i: "i < length xs" and y: "xs ! i = y"
    by (auto simp: in_set_conv_nth)
  obtain x xs' where xs: "xs = x # xs'"
    using i by (cases xs) auto
  have "mset xs = mset (take i xs @ xs ! i # drop (Suc i) xs)"
    using id_take_nth_drop[OF i] by (rule arg_cong[where f = mset])
  then have "mset (take i xs @ drop (Suc i) xs) = mset ys"
    using Cons.prems y by simp
  then obtain cs where cs: "range_order cs (take i xs @ drop (Suc i) xs) = ys"
    using Cons.IH by metis
  have "range_order (i # cs) (x # xs') =
      (x # xs') ! (i mod length (x # xs')) #
        range_order cs (take (i mod length (x # xs')) (x # xs') @
                        drop (Suc (i mod length (x # xs'))) (x # xs'))"
    by (simp only: range_order.simps Let_def)
  moreover have "i mod length (x # xs') = i"
    using i xs by simp
  ultimately have "range_order (i # cs) xs = y # ys"
    using cs y xs by simp
  then show ?case by blast
qed

subsection \<open>The three loops\<close>

lemma pick_loop_filter:
  "pick_loop t h ms acc = acc @ filter (\<lambda>m. map_of t (Cert (h (RootCA m))) \<noteq> None) ms"
  by (induction ms arbitrary: acc) (auto split: option.splits)

lemma update_new: "k \<notin> fst ` set al \<Longrightarrow> AList.update k v al = al @ [(k, v)]"
  by (induction al) auto

lemma coalesce_step_new:
  assumes "map_of (allCAs s) (Cert (heap s (RootCA m))) = None"
  shows "coalesce_step m s =
    \<lparr>count = count s + 1,
     allCAs = allCAs s @ [(Cert (heap s (RootCA m)), RootCA m)],
     allMasquerades = allMasquerades s @ [m],
     heap = (heap s)(RootCA m :=
              (heap s (RootCA m))\<lparr>freq := float64 (freq (heap s (RootCA m)) + 1)\<rparr>)\<rparr>"
proof -
  have "Cert (heap s (RootCA m)) \<notin> fst ` set (allCAs s)"
    using assms by (simp add: map_of_eq_None_iff)
  then show ?thesis
    using assms by (simp add: coalesce_step_def Let_def update_new)
qed

lemma coalesce_step_old:
  assumes "map_of (allCAs s) (Cert (heap s (RootCA m))) = Some p"
    and "keyed (allCAs s) (heap s)"
  shows "coalesce_step m s =
    \<lparr>count = count s + 1,
     allCAs = allCAs s,
     allMasquerades = allMasquerades s @ [m],
     heap = (heap s)(p := (heap s p)\<lparr>freq := float64 (freq (heap s p) + 1)\<rparr>)\<rparr>"
proof -
  have "(Cert (heap s (RootCA m)), p) \<in> set (allCAs s)"
    using assms(1) by (rule map_of_SomeD)
  then have "Cert (heap s p) = Cert (heap s (RootCA m))"
    using assms(2) by (auto simp: keyed_def)
  then show ?thesis
    using assms(1) by (simp add: coalesce_step_def Let_def update_triv)
qed

lemma keyed_coalesce_step:
  assumes "keyed (allCAs s) (heap s)"
  shows "keyed (allCAs (coalesce_step m s)) (heap (coalesce_step m s))"
proof (cases "map_of (allCAs s) (Cert (heap s (RootCA m)))")
  case None
  then have "Cert (heap s (RootCA m)) \<notin> fst ` set (allCAs s)"
    by (simp add: map_of_eq_None_iff)
  then show ?thesis
    using assms unfolding coalesce_step_new[OF None] keyed_def by auto
next
  case (Some p)
  show ?thesis
    using assms unfolding coalesce_step_old[OF Some assms] keyed_def by auto
qed

lemma keyed_coalesce_loop:
  "keyed (allCAs s) (heap s) \<Longrightarrow> keyed (allCAs (coalesce_loop ms s)) (heap (coalesce_loop ms s))"
  by (induction ms arbitrary: s) (simp_all add: keyed_coalesce_step)

lemma keyed_coalesce: "keyed (allCAs (coalesce ms h0)) (heap (coalesce ms h0))"
  unfolding coalesce_def by (rule keyed_coalesce_loop) (simp add: keyed_def)

lemma Cert_coalesce_step: "Cert (heap (coalesce_step m s) q) = Cert (heap s q)"
  by (simp add: coalesce_step_def Let_def)

lemma Cert_coalesce_loop: "Cert (heap (coalesce_loop ms s) q) = Cert (heap s q)"
  by (induction ms arbitrary: s) (simp_all add: Cert_coalesce_step)

lemma allMasquerades_coalesce_loop:
  "allMasquerades (coalesce_loop ms s) = allMasquerades s @ ms"
  by (induction ms arbitrary: s) (simp_all add: coalesce_step_def Let_def)

lemma count_coalesce_loop: "count (coalesce_loop ms s) = count s + length ms"
  by (induction ms arbitrary: s) (simp_all add: coalesce_step_def Let_def)

lemma keys_coalesce_step:
  assumes "keyed (allCAs s) (heap s)"
  shows "fst ` set (allCAs (coalesce_step m s)) =
    insert (Cert (heap s (RootCA m))) (fst ` set (allCAs s))"
proof (cases "map_of (allCAs s) (Cert (heap s (RootCA m)))")
  case None
  show ?thesis unfolding coalesce_step_new[OF None] by simp
next
  case (Some p)
  have "Cert (heap s (RootCA m)) \<in> fst ` set (allCAs s)"
    using map_of_SomeD[OF Some] by force
  then show ?thesis unfolding coalesce_step_old[OF Some assms] by auto
qed

lemma trust_loop_closed:
  assumes "0 < n" "distinct (map snd es)" "distinct (map fst es)"
    "fst ` set es \<inter> fst ` set t = {}" "\<forall>(k, p) \<in> set es. Cert (h p) = k"
  shows "trust_loop minFreq n es t h =
     Inr (t @ filter (\<lambda>(k, p). minFreq < freq (relative n (h p))) es,
          (\<lambda>q. if q \<in> snd ` set es then relative n (h q) else h q))"
  using assms
proof (induction es arbitrary: t h)
  case Nil
  then show ?case by simp
next
  case (Cons e es)
  obtain k p where e: "e = (k, p)" by (cases e)
  define h' where "h' = h(p := relative n (h p))"
  define t' where "t' = (if minFreq < freq (h' p) then t @ [(k, p)] else t)"
  have kt: "k \<notin> fst ` set t" using Cons.prems(4) e by auto
  have Ck: "Cert (h' p) = k" using Cons.prems(5) e by (simp add: h'_def relative_def)
  have step: "trust_loop minFreq n (e # es) t h = trust_loop minFreq n es t' h'"
    using Cons.prems(1) kt Ck unfolding e t'_def h'_def
    by (simp add: Let_def relative_def update_new)
  have pes: "p \<notin> snd ` set es" using Cons.prems(2) e by (auto simp: image_iff)
  have kes: "k \<notin> fst ` set es" using Cons.prems(3) e by (auto simp: image_iff)
  have disj: "fst ` set es \<inter> fst ` set t' = {}"
    using Cons.prems(4) kes unfolding t'_def e by auto
  have certs: "\<forall>(k, q) \<in> set es. Cert (h' q) = k"
    using Cons.prems(5) pes unfolding h'_def by (auto simp: image_iff)
  have IH: "trust_loop minFreq n es t' h' =
     Inr (t' @ filter (\<lambda>(k, p). minFreq < freq (relative n (h' p))) es,
          (\<lambda>q. if q \<in> snd ` set es then relative n (h' q) else h' q))"
    using Cons.IH[OF Cons.prems(1) _ _ disj certs] Cons.prems(2,3) by simp
  have same: "\<And>q. q \<in> snd ` set es \<Longrightarrow> h' q = h q"
    using pes unfolding h'_def by auto
  have same': "\<And>a b. (a, b) \<in> set es \<Longrightarrow> h' b = h b"
    by (rule same) force
  have f: "filter (\<lambda>(k, p). minFreq < freq (relative n (h' p))) es
         = filter (\<lambda>(k, p). minFreq < freq (relative n (h p))) es"
    by (rule filter_cong) (auto simp: same')
  have g: "(\<lambda>q. if q \<in> snd ` set es then relative n (h' q) else h' q)
         = (\<lambda>q. if q \<in> snd ` set (e # es) then relative n (h q) else h q)"
  proof (rule ext)
    fix q
    show "(if q \<in> snd ` set es then relative n (h' q) else h' q)
        = (if q \<in> snd ` set (e # es) then relative n (h q) else h q)"
      using pes same[of q] unfolding e by (cases "q = p") (auto simp: h'_def)
  qed
  show ?case
    unfolding step IH f g unfolding t'_def e h'_def by simp
qed

lemma keyed_distinct_snd:
  assumes "keyed al h"
  shows "distinct (map snd al)"
proof -
  have eq: "map fst al = map (\<lambda>p. Cert (h p)) (map snd al)"
    using assms by (auto simp: keyed_def)
  have "distinct (map fst al)"
    using assms by (simp add: keyed_def)
  then have "distinct (map (\<lambda>p. Cert (h p)) (map snd al))"
    unfolding eq .
  then show ?thesis
    using distinct_map[of "\<lambda>p. Cert (h p)" "map snd al"] by blast
qed

lemma keyed_range_order: "keyed al h \<Longrightarrow> keyed (range_order cs al) h"
  by (simp add: keyed_def distinct_map_range_order set_range_order)

lemma coalesce_empty [simp]: "allCAs (coalesce [] h0) = []" "heap (coalesce [] h0) = h0"
  by (simp_all add: coalesce_def)

lemma count_coalesce [simp]: "count (coalesce ms h0) = length ms"
  by (simp add: coalesce_def count_coalesce_loop)

lemma allMasquerades_coalesce [simp]: "allMasquerades (coalesce ms h0) = ms"
  by (simp add: coalesce_def allMasquerades_coalesce_loop)

lemma Cert_coalesce [simp]: "Cert (heap (coalesce ms h0) q) = Cert (h0 q)"
  by (simp add: coalesce_def Cert_coalesce_loop)

lemma coalesceMasquerades_closed:
  "coalesceMasquerades minFreq ord ms h0 =
     Inr (filter (\<lambda>(k, p). minFreq < freq (trusted_store ms h0 p))
            (range_order ord (allCAs (coalesce ms h0))),
          filter (\<lambda>m. map_of
                 (filter (\<lambda>(k, p). minFreq < freq (trusted_store ms h0 p))
                    (range_order ord (allCAs (coalesce ms h0))))
                 (Cert (h0 (RootCA m))) \<noteq> None) ms,
          trusted_store ms h0)"
proof (cases ms)
  case Nil
  then show ?thesis
    by (simp add: coalesceMasquerades_def trusted_store_def)
next
  case (Cons m ms')
  define s where "s = coalesce ms h0"
  define es where "es = range_order ord (allCAs s)"
  have n: "0 < length ms" using Cons by simp
  have k: "keyed es (heap s)"
    unfolding es_def s_def by (rule keyed_range_order[OF keyed_coalesce])
  have ses: "set es = set (allCAs s)" by (simp add: es_def set_range_order)
  have tl: "trust_loop minFreq (length ms) es [] (heap s) =
     Inr ([] @ filter (\<lambda>(k, p). minFreq < freq (relative (length ms) (heap s p))) es,
          (\<lambda>q. if q \<in> snd ` set es then relative (length ms) (heap s q) else heap s q))"
    using k by (intro trust_loop_closed n keyed_distinct_snd[OF k]) (auto simp: keyed_def)
  have ts: "(\<lambda>q. if q \<in> snd ` set es then relative (length ms) (heap s q) else heap s q)
      = trusted_store ms h0"
    unfolding trusted_store_def ses s_def ..
  have fl: "filter (\<lambda>(k, p). minFreq < freq (relative (length ms) (heap s p))) es
      = filter (\<lambda>(k, p). minFreq < freq (trusted_store ms h0 p)) es"
  proof (rule filter_cong[OF refl])
    fix x assume "x \<in> set es"
    then have "snd x \<in> snd ` set (allCAs (coalesce ms h0))"
      using ses unfolding s_def by auto
    then show "(case x of (k, p) \<Rightarrow> minFreq < freq (relative (length ms) (heap s p)))
        = (case x of (k, p) \<Rightarrow> minFreq < freq (trusted_store ms h0 p))"
      by (cases x) (simp add: trusted_store_def s_def)
  qed
  have C: "\<And>q. Cert (trusted_store ms h0 q) = Cert (h0 q)"
    by (simp add: trusted_store_def relative_def)
  have "coalesceMasquerades minFreq ord ms h0 =
      (case trust_loop minFreq (length ms) es [] (heap s) of
         Inl e \<Rightarrow> Inl e
       | Inr (t, h) \<Rightarrow> Inr (t, pick_loop t h ms [], h))"
    unfolding coalesceMasquerades_def Let_def es_def s_def
      count_coalesce allMasquerades_coalesce ..
  also have "\<dots> =
      Inr (filter (\<lambda>(k, p). minFreq < freq (trusted_store ms h0 p)) es,
           pick_loop (filter (\<lambda>(k, p). minFreq < freq (trusted_store ms h0 p)) es)
             (trusted_store ms h0) ms [],
           trusted_store ms h0)"
    unfolding tl ts fl by simp
  finally show ?thesis
    unfolding pick_loop_filter C es_def s_def by simp
qed

lemma occurrences_snoc:
  "occurrences h0 (seen @ [m]) k =
     occurrences h0 seen k + (if Cert (h0 (RootCA m)) = k then 1 else 0)"
  by (simp add: occurrences_def)

lemma occurrences_unseen:
  "k \<notin> (\<lambda>m. Cert (h0 (RootCA m))) ` set seen \<Longrightarrow> occurrences h0 seen k = 0"
  by (auto simp: occurrences_def filter_empty_conv)

lemma counted_coalesce_step:
  assumes inv: "counted h0 seen s" and zero: "freq (h0 (RootCA m)) = 0"
    and small: "Suc (length seen) < 2 ^ 53"
  shows "counted h0 (seen @ [m]) (coalesce_step m s)"
proof -
  define c where "c = Cert (heap s (RootCA m))"
  have inc: "float64 (of_nat (occurrences h0 seen k) + 1) = of_nat (occurrences h0 seen k) + 1"
    for k
  proof -
    have "occurrences h0 seen k \<le> length seen" by (simp add: occurrences_def)
    then have "Suc (occurrences h0 seen k) < 2 ^ 53" using small by simp
    then have "float64 (of_nat (Suc (occurrences h0 seen k))) = of_nat (Suc (occurrences h0 seen k))"
      by (rule float64_of_nat)
    then show ?thesis by (simp add: add.commute)
  qed
  have k: "keyed (allCAs s) (heap s)"
    and keys: "fst ` set (allCAs s) = (\<lambda>m. Cert (h0 (RootCA m))) ` set seen"
    and certs: "\<And>q. Cert (heap s q) = Cert (h0 q)"
    and out: "\<And>q. q \<notin> snd ` set (allCAs s) \<Longrightarrow> heap s q = h0 q"
    and fr: "\<And>k p. (k, p) \<in> set (allCAs s) \<Longrightarrow> freq (heap s p) = of_nat (occurrences h0 seen k)"
    using inv unfolding counted_def by auto
  have kc: "\<And>k p. (k, p) \<in> set (allCAs s) \<Longrightarrow> Cert (heap s p) = k"
    using k unfolding keyed_def by auto
  have c0: "c = Cert (h0 (RootCA m))" by (simp add: c_def certs)
  have k': "keyed (allCAs (coalesce_step m s)) (heap (coalesce_step m s))"
    by (rule keyed_coalesce_step[OF k])
  have keys': "fst ` set (allCAs (coalesce_step m s)) = (\<lambda>m. Cert (h0 (RootCA m))) ` set (seen @ [m])"
    unfolding keys_coalesce_step[OF k] keys certs by auto
  have certs': "\<forall>q. Cert (heap (coalesce_step m s) q) = Cert (h0 q)"
    by (simp add: Cert_coalesce_step certs)
  show ?thesis
  proof (cases "map_of (allCAs s) c")
    case None
    note st = coalesce_step_new[OF None[unfolded c_def]]
    have cn: "c \<notin> fst ` set (allCAs s)"
      using None by (simp add: map_of_eq_None_iff)
    have pn: "RootCA m \<notin> snd ` set (allCAs s)"
    proof
      assume "RootCA m \<in> snd ` set (allCAs s)"
      then obtain k where "(k, RootCA m) \<in> set (allCAs s)" by force
      with kc[OF this] cn show False unfolding c_def by force
    qed
    have f0: "freq (heap s (RootCA m)) = 0"
      using out[OF pn] zero by simp
    have occ0: "occurrences h0 seen c = 0"
      using cn unfolding keys c0 by (rule occurrences_unseen)
    have out': "\<forall>q. q \<notin> snd ` set (allCAs (coalesce_step m s)) \<longrightarrow> heap (coalesce_step m s) q = h0 q"
      unfolding st using out by auto
    have fr': "\<forall>(k, p) \<in> set (allCAs (coalesce_step m s)).
        freq (heap (coalesce_step m s) p) = of_nat (occurrences h0 (seen @ [m]) k)"
    proof (clarify)
      fix k p assume "(k, p) \<in> set (allCAs (coalesce_step m s))"
      then consider "(k, p) \<in> set (allCAs s)" | "k = c" "p = RootCA m"
        unfolding st c_def by auto
      then show "freq (heap (coalesce_step m s) p) = of_nat (occurrences h0 (seen @ [m]) k)"
      proof cases
        case 1
        then have "p \<noteq> RootCA m" using pn by force
        moreover have "k \<noteq> c" using 1 cn by force
        ultimately show ?thesis
          unfolding st using fr[OF 1] by (simp add: occurrences_snoc c0)
      next
        case 2
        then show ?thesis
          unfolding st using f0 occ0 by (simp add: occurrences_snoc c0)
      qed
    qed
    show ?thesis
      unfolding counted_def using k' keys' certs' out' fr' by blast
  next
    case (Some p)
    note st = coalesce_step_old[OF Some[unfolded c_def] k]
    have cp: "(c, p) \<in> set (allCAs s)" using Some by (rule map_of_SomeD)
    have out': "\<forall>q. q \<notin> snd ` set (allCAs (coalesce_step m s)) \<longrightarrow> heap (coalesce_step m s) q = h0 q"
      unfolding st using out cp by force
    have fr': "\<forall>(k, q) \<in> set (allCAs (coalesce_step m s)).
        freq (heap (coalesce_step m s) q) = of_nat (occurrences h0 (seen @ [m]) k)"
    proof (clarify)
      fix k q assume "(k, q) \<in> set (allCAs (coalesce_step m s))"
      then have kq: "(k, q) \<in> set (allCAs s)" unfolding st by simp
      show "freq (heap (coalesce_step m s) q) = of_nat (occurrences h0 (seen @ [m]) k)"
      proof (cases "q = p")
        case True
        then have "k = c" using kc[OF kq] kc[OF cp] by simp
        then show ?thesis
          unfolding st using fr[OF cp] True inc[of c] by (simp add: occurrences_snoc c0)
      next
        case False
        then have "k \<noteq> c"
          using k kq cp unfolding keyed_def by (auto dest: eq_key_imp_eq_value)
        then show ?thesis
          unfolding st using fr[OF kq] False by (simp add: occurrences_snoc c0)
      qed
    qed
    show ?thesis
      unfolding counted_def using k' keys' certs' out' fr' by blast
  qed
qed

lemma counted_coalesce_loop:
  "counted h0 seen s \<Longrightarrow> \<forall>m \<in> set ms. freq (h0 (RootCA m)) = 0
     \<Longrightarrow> length (seen @ ms) < 2 ^ 53
     \<Longrightarrow> counted h0 (seen @ ms) (coalesce_loop ms s)"
proof (induction ms arbitrary: seen s)
  case Nil
  then show ?case by simp
next
  case (Cons m ms)
  have "counted h0 (seen @ [m]) (coalesce_step m s)"
    using Cons.prems by (intro counted_coalesce_step) auto
  from Cons.IH[OF this] Cons.prems(2,3) show ?case by simp
qed

lemma counted_coalesce:
  assumes "\<forall>m \<in> set ms. freq (h0 (RootCA m)) = 0" and "length ms < 2 ^ 53"
  shows "counted h0 ms (coalesce ms h0)"
proof -
  have "counted h0 [] \<lparr>count = 0, allCAs = [], allMasquerades = [], heap = h0\<rparr>"
    by (simp add: counted_def keyed_def)
  from counted_coalesce_loop[OF this assms(1)] assms(2) show ?thesis
    by (simp add: coalesce_def)
qed

subsection \<open>Trust filter, masquerade filter and frequencies\<close>

lemma map_of_filter_entries:
  assumes "distinct (map fst es)"
  shows "(map_of (filter P es) k = Some v) = ((k, v) \<in> set es \<and> P (k, v))"
proof -
  have "distinct (map fst (filter P es))"
    using assms by (rule distinct_map_filter)
  then show ?thesis by simp
qed

text \<open>
  Claim C1. \<^verbatim>\<open>coalesceMasquerades\<close> returns, and for every castat of \<^verbatim>\<open>allCAs\<close>
  (every castat the coalescing phase produced), the castat is in \<^verbatim>\<open>trustedCAs\<close>
  under its key if and only if its relative frequency, as the second loop left it in the
  store, is strictly greater than \<^verbatim>\<open>*minFreq\<close>; a frequency equal to the threshold
  leaves the key out of \<^verbatim>\<open>trustedCAs\<close>. Nothing else is in \<^verbatim>\<open>trustedCAs\<close>.
\<close>

theorem trusted_iff_exceeds_minFreq:
  "\<exists>trustedCAs trustedMasquerades h.
     coalesceMasquerades minFreq ord masqueradesCh h0 = Inr (trustedCAs, trustedMasquerades, h) \<and>
     (\<forall>(k, ca) \<in> set (allCAs (coalesce masqueradesCh h0)).
        (map_of trustedCAs k = Some ca) = (minFreq < freq (h ca)) \<and>
        (freq (h ca) = minFreq \<longrightarrow> map_of trustedCAs k = None)) \<and>
     set trustedCAs \<subseteq> set (allCAs (coalesce masqueradesCh h0))"
proof -
  define al where "al = allCAs (coalesce masqueradesCh h0)"
  define h where "h = trusted_store masqueradesCh h0"
  define t where "t = filter (\<lambda>(k, p). minFreq < freq (h p)) (range_order ord al)"
  have d: "distinct (map fst (range_order ord al))"
    using keyed_coalesce[of masqueradesCh h0]
    by (simp add: distinct_map_range_order keyed_def al_def)
  have iff: "\<And>k ca. (map_of t k = Some ca) = ((k, ca) \<in> set al \<and> minFreq < freq (h ca))"
    unfolding t_def map_of_filter_entries[OF d] by (simp add: set_range_order)
  have none: "\<And>k ca. (k, ca) \<in> set al \<Longrightarrow> freq (h ca) = minFreq \<Longrightarrow> map_of t k = None"
  proof -
    fix k ca assume "(k, ca) \<in> set al" "freq (h ca) = minFreq"
    have "\<And>v. map_of t k \<noteq> Some v"
    proof
      fix v assume "map_of t k = Some v"
      then have "(k, v) \<in> set al" "minFreq < freq (h v)" unfolding iff by auto
      moreover have "v = ca"
        using \<open>(k, v) \<in> set al\<close> \<open>(k, ca) \<in> set al\<close> keyed_coalesce[of masqueradesCh h0]
        unfolding al_def keyed_def by (auto dest: eq_key_imp_eq_value)
      ultimately show False using \<open>freq (h ca) = minFreq\<close> by simp
    qed
    then show "map_of t k = None" by (cases "map_of t k") auto
  qed
  have sub: "set t \<subseteq> set al" by (auto simp: t_def set_range_order)
  have "coalesceMasquerades minFreq ord masqueradesCh h0 =
      Inr (t, filter (\<lambda>m. map_of t (Cert (h0 (RootCA m))) \<noteq> None) masqueradesCh, h)"
    unfolding coalesceMasquerades_closed t_def h_def al_def ..
  moreover have "\<forall>(k, ca) \<in> set al.
        (map_of t k = Some ca) = (minFreq < freq (h ca)) \<and>
        (freq (h ca) = minFreq \<longrightarrow> map_of t k = None)"
    using iff none by auto
  ultimately show ?thesis using sub unfolding al_def by blast
qed

lemma ex_run:
  "coalesce ex_stream ex_store =
     \<lparr>count = 3, allCAs = [(''PEM-A'', 0), (''PEM-B'', 2)], allMasquerades = ex_stream,
      heap = ex_store(0 := (ex_store 0)\<lparr>freq := 2\<rparr>, 2 := (ex_store 2)\<lparr>freq := 1\<rparr>)\<rparr>"
  by (simp add: coalesce_def coalesce_step_def ex_stream_def ex_store_def Let_def fun_upd_twist)

text \<open>
  The example stream with the threshold at the \<^verbatim>\<open>float64\<close> nearest to one third of
  100: PEM-A, seen twice in three, is trusted; PEM-B, whose frequency equals the
  threshold, is not.
\<close>

theorem trusted_iff_exceeds_minFreq_witness:
  "(case coalesceMasquerades (4691249611844267 / 140737488355328) [1] ex_stream ex_store of
      Inl f \<Rightarrow> False
    | Inr (trustedCAs, trustedMasquerades, h) \<Rightarrow>
        allCAs (coalesce ex_stream ex_store) = [(''PEM-A'', 0), (''PEM-B'', 2)] \<and>
        freq (h 0) = 4691249611844267 / 70368744177664 \<and>
        map_of trustedCAs ''PEM-A'' = Some 0 \<and>
        freq (h 2) = 4691249611844267 / 140737488355328 \<and>
        map_of trustedCAs ''PEM-B'' = None)"
  using trusted_iff_exceeds_minFreq[of "4691249611844267 / 140737488355328" "[1]"
          ex_stream ex_store]
  by (simp add: coalesceMasquerades_def ex_run Let_def float64_200_3 float64_100_3)

text \<open>
  Claim C2. Every masquerade of the returned \<^verbatim>\<open>trustedMasquerades\<close> has a root CA
  whose PEM text is a key of the returned \<^verbatim>\<open>trustedCAs\<close>, and the castat stored
  there has that very PEM text. The list consists of exactly the received masquerades
  with that property, in the order received.
\<close>

theorem trusted_masquerades_reference_trusted_CAs:
  "\<exists>trustedCAs trustedMasquerades h.
     coalesceMasquerades minFreq ord masqueradesCh h0 = Inr (trustedCAs, trustedMasquerades, h) \<and>
     (\<forall>m \<in> set trustedMasquerades.
        \<exists>ca. map_of trustedCAs (Cert (h (RootCA m))) = Some ca \<and>
             Cert (h ca) = Cert (h (RootCA m))) \<and>
     trustedMasquerades =
       filter (\<lambda>m. Cert (h (RootCA m)) \<in> fst ` set trustedCAs) masqueradesCh"
proof -
  define al where "al = allCAs (coalesce masqueradesCh h0)"
  define h where "h = trusted_store masqueradesCh h0"
  define t where "t = filter (\<lambda>(k, p). minFreq < freq (h p)) (range_order ord al)"
  define tm where "tm = filter (\<lambda>m. map_of t (Cert (h0 (RootCA m))) \<noteq> None) masqueradesCh"
  have C: "\<And>q. Cert (h q) = Cert (h0 q)"
    by (simp add: h_def trusted_store_def relative_def)
  have run: "coalesceMasquerades minFreq ord masqueradesCh h0 = Inr (t, tm, h)"
    unfolding coalesceMasquerades_closed t_def h_def al_def tm_def ..
  have key: "\<And>k ca. map_of t k = Some ca \<Longrightarrow> Cert (h ca) = k"
  proof -
    fix k ca assume "map_of t k = Some ca"
    then have "(k, ca) \<in> set t" by (rule map_of_SomeD)
    then have "(k, ca) \<in> set al" by (simp add: t_def set_range_order)
    then have "Cert (heap (coalesce masqueradesCh h0) ca) = k"
      using keyed_coalesce[of masqueradesCh h0] unfolding al_def keyed_def by auto
    then show "Cert (h ca) = k" by (simp add: C)
  qed
  have ref: "\<forall>m \<in> set tm.
        \<exists>ca. map_of t (Cert (h (RootCA m))) = Some ca \<and> Cert (h ca) = Cert (h (RootCA m))"
    unfolding tm_def C using key C by auto
  have flt: "tm = filter (\<lambda>m. Cert (h (RootCA m)) \<in> fst ` set t) masqueradesCh"
    unfolding tm_def C by (simp add: map_of_eq_None_iff)
  show ?thesis using run ref flt by blast
qed

text \<open>The two masquerades of PEM-A survive and find castat 0 in the map.\<close>

theorem trusted_masquerades_reference_trusted_CAs_witness:
  "(case coalesceMasquerades 50 [1] ex_stream ex_store of
      Inl f \<Rightarrow> False
    | Inr (trustedCAs, trustedMasquerades, h) \<Rightarrow>
        map Domain trustedMasquerades = [''b.example'', ''a.example''] \<and>
        map (\<lambda>m. map_of trustedCAs (Cert (h (RootCA m)))) trustedMasquerades = [Some 0, Some 0] \<and>
        map (\<lambda>m. Cert (h (RootCA m))) trustedMasquerades = [''PEM-A'', ''PEM-A''] \<and>
        Cert (h 0) = ''PEM-A'')"
  using trusted_masquerades_reference_trusted_CAs[of 50 "[1]" ex_stream ex_store]
  by (simp add: coalesceMasquerades_def ex_run Let_def float64_200_3 float64_100_3)
    (simp add: ex_store_def ex_stream_def)

text \<open>
  Claim C3. When every masquerade arrives with a castat whose \<^verbatim>\<open>freq\<close> is still the
  zero value (as \<^verbatim>\<open>grabCerts\<close> creates them), and the masquerades are few enough for
  a \<^verbatim>\<open>float64\<close> to count a hundred times their number exactly, then after the
  frequency loop the castats of \<^verbatim>\<open>allCAs\<close> are those of the certificates received
  and each has as \<^verbatim>\<open>freq\<close> its occurrence count times 100 divided by the number of
  masquerades received, in \<^verbatim>\<open>float64\<close> division: the product and the divisor are
  exact, the quotient is rounded once, so it is within the fraction \<open>2 ^ -53\<close> of the
  exact quotient. That value lies between 0 and 100.
\<close>

theorem relative_frequency:
  assumes "\<forall>m \<in> set masqueradesCh. freq (h0 (RootCA m)) = 0"
    and "length masqueradesCh * 100 < 2 ^ 53"
  shows "\<exists>trustedCAs trustedMasquerades h.
     coalesceMasquerades minFreq ord masqueradesCh h0 = Inr (trustedCAs, trustedMasquerades, h) \<and>
     fst ` set (allCAs (coalesce masqueradesCh h0)) =
       (\<lambda>m. Cert (h0 (RootCA m))) ` set masqueradesCh \<and>
     (\<forall>(k, ca) \<in> set (allCAs (coalesce masqueradesCh h0)).
        freq (h ca) =
          float64 (of_nat (occurrences h0 masqueradesCh k) * 100 /
                   of_nat (length masqueradesCh)) \<and>
        \<bar>freq (h ca) -
           of_nat (occurrences h0 masqueradesCh k) * 100 / of_nat (length masqueradesCh)\<bar>
          \<le> of_nat (occurrences h0 masqueradesCh k) * 100 / of_nat (length masqueradesCh)
               / 2 ^ 53 \<and>
        0 \<le> freq (h ca) \<and> freq (h ca) \<le> 100)"
proof -
  define s where "s = coalesce masqueradesCh h0"
  define h where "h = trusted_store masqueradesCh h0"
  define n where "n = length masqueradesCh"
  have n53: "n < 2 ^ 53" using assms(2) by (simp add: n_def)
  have inv: "counted h0 masqueradesCh s"
    unfolding s_def using assms(1) n53 unfolding n_def by (rule counted_coalesce)
  have keys: "fst ` set (allCAs s) = (\<lambda>m. Cert (h0 (RootCA m))) ` set masqueradesCh"
    using inv unfolding counted_def by blast
  have fr: "\<And>k p. (k, p) \<in> set (allCAs s) \<Longrightarrow>
      freq (heap s p) = of_nat (occurrences h0 masqueradesCh k)"
    using inv unfolding counted_def by blast
  have le: "\<And>k. occurrences h0 masqueradesCh k \<le> n"
    by (simp add: occurrences_def n_def)
  have fn: "float64 (of_nat n) = of_nat n"
    using n53 by (rule float64_of_nat)
  have each: "\<forall>(k, ca) \<in> set (allCAs s).
        freq (h ca) = float64 (of_nat (occurrences h0 masqueradesCh k) * 100 / of_nat n) \<and>
        \<bar>freq (h ca) - of_nat (occurrences h0 masqueradesCh k) * 100 / of_nat n\<bar>
          \<le> of_nat (occurrences h0 masqueradesCh k) * 100 / of_nat n / 2 ^ 53 \<and>
        0 \<le> freq (h ca) \<and> freq (h ca) \<le> 100"
  proof (clarify)
    fix k ca assume e: "(k, ca) \<in> set (allCAs s)"
    define occ where "occ = occurrences h0 masqueradesCh k"
    define q :: rat where "q = of_nat occ * 100 / of_nat n"
    have "ca \<in> snd ` set (allCAs s)" using e by force
    then have hca: "h ca = relative n (heap s ca)"
      by (simp add: h_def trusted_store_def s_def n_def)
    have "occ * 100 < 2 ^ 53" using le[of k] assms(2) by (simp add: occ_def n_def)
    then have "float64 (of_nat (occ * 100)) = of_nat (occ * 100)"
      by (rule float64_of_nat)
    then have fm: "float64 (of_nat occ * 100) = of_nat occ * 100" by simp
    have eq: "freq (h ca) = float64 q"
      unfolding hca relative_def q_def using fr[OF e] fm fn by (simp add: occ_def)
    have "masqueradesCh \<noteq> []" using e keys by force
    then have pos: "0 < n" by (simp add: n_def)
    have "(of_nat occ :: rat) \<le> of_nat n"
      using le[of k] by (simp add: occ_def)
    then have "(of_nat occ * 100 :: rat) \<le> 100 * of_nat n"
      by simp
    then have up: "q \<le> 100"
      using pos by (simp add: q_def divide_le_eq)
    have lo: "0 \<le> q" by (simp add: q_def)
    have "float64 q \<le> float64 100" using lo up by (rule float64_mono)
    then have b2: "float64 q \<le> 100" by simp
    have b1: "0 \<le> float64 q" using lo by (rule float64_nonneg)
    have err: "\<bar>float64 q - q\<bar> \<le> q / 2 ^ 53"
    proof (cases "q = 0")
      case True
      then show ?thesis by simp
    next
      case False
      then have "0 < q" using lo by simp
      then show ?thesis by (rule float64_error)
    qed
    show "freq (h ca) = float64 (of_nat (occurrences h0 masqueradesCh k) * 100 / of_nat n) \<and>
        \<bar>freq (h ca) - of_nat (occurrences h0 masqueradesCh k) * 100 / of_nat n\<bar>
          \<le> of_nat (occurrences h0 masqueradesCh k) * 100 / of_nat n / 2 ^ 53 \<and>
        0 \<le> freq (h ca) \<and> freq (h ca) \<le> 100"
      using eq b1 b2 err unfolding q_def occ_def by simp
  qed
  have "\<exists>t tm. coalesceMasquerades minFreq ord masqueradesCh h0 = Inr (t, tm, h)"
    unfolding coalesceMasquerades_closed h_def by blast
  then show ?thesis using keys each unfolding s_def n_def by blast
qed

lemma ex_stream_zero: "\<forall>m \<in> set ex_stream. freq (ex_store (RootCA m)) = 0"
  by (simp add: ex_stream_def ex_store_def)

lemma ex_stream_small: "length ex_stream * 100 < 2 ^ 53"
  by (simp add: ex_stream_def)

text \<open>
  Two of three and one of three: neither quotient is a \<^verbatim>\<open>float64\<close>, and the stored
  values are the nearest ones.
\<close>

theorem relative_frequency_witness:
  "(case coalesceMasquerades 3 [1] ex_stream ex_store of
      Inl f \<Rightarrow> False
    | Inr (trustedCAs, trustedMasquerades, h) \<Rightarrow>
        allCAs (coalesce ex_stream ex_store) = [(''PEM-A'', 0), (''PEM-B'', 2)] \<and>
        occurrences ex_store ex_stream ''PEM-A'' = 2 \<and>
        freq (h 0) = 4691249611844267 / 70368744177664 \<and>
        occurrences ex_store ex_stream ''PEM-B'' = 1 \<and>
        freq (h 2) = 4691249611844267 / 140737488355328)"
  using relative_frequency[OF ex_stream_zero ex_stream_small, of 3 "[1]"]
  by (simp add: coalesceMasquerades_def ex_run Let_def float64_200_3 float64_100_3)
    (simp add: ex_store_def ex_stream_def occurrences_def)

text \<open>
  Claim C4. When the results stream is empty, \<^verbatim>\<open>coalesceMasquerades\<close> returns an
  empty \<^verbatim>\<open>trustedCAs\<close> and an empty \<^verbatim>\<open>trustedMasquerades\<close>, it returns regularly,
  it performs no division (so none by zero), and it leaves the store as it was.
\<close>

theorem coalesceMasquerades_empty_stream:
  "coalesceMasquerades minFreq ord [] h0 = Inr ([], [], h0)"
  by (simp add: coalesceMasquerades_def coalesce_def)

section \<open>Results about the model builder\<close>

lemma mset_insert_less: "mset (insert_less lt x ys) = add_mset x (mset ys)"
  by (induction ys) simp_all

lemma mset_Sort: "mset (Sort lt xs) = mset xs"
  by (induction xs) (simp_all add: mset_insert_less)

lemma set_insert_less: "set (insert_less lt x ys) = insert x (set ys)"
  using mset_insert_less[of lt x ys] by (metis set_mset_mset set_mset_add_mset_insert)

lemma sorted_insert_less:
  assumes asym: "\<And>a b. lt a b \<Longrightarrow> \<not> lt b a"
    and ntrans: "\<And>a b c. \<not> lt b a \<Longrightarrow> \<not> lt c b \<Longrightarrow> \<not> lt c a"
    and srt: "sorted_wrt (\<lambda>a b. \<not> lt b a) ys"
  shows "sorted_wrt (\<lambda>a b. \<not> lt b a) (insert_less lt x ys)"
  using srt
proof (induction ys)
  case Nil
  then show ?case by simp
next
  case (Cons y ys)
  show ?case
  proof (cases "lt y x")
    case True
    have "sorted_wrt (\<lambda>a b. \<not> lt b a) (insert_less lt x ys)"
      using Cons by simp
    moreover have "\<forall>z \<in> set (insert_less lt x ys). \<not> lt z y"
      using Cons.prems asym[OF True] by (simp add: set_insert_less)
    ultimately show ?thesis using True by simp
  next
    case False
    have "\<forall>z \<in> set ys. \<not> lt z x"
      using Cons.prems ntrans[OF False] by auto
    then show ?thesis using False Cons.prems by simp
  qed
qed

lemma sorted_Sort:
  assumes "\<And>a b. lt a b \<Longrightarrow> \<not> lt b a"
    and "\<And>a b c. \<not> lt b a \<Longrightarrow> \<not> lt c b \<Longrightarrow> \<not> lt c a"
  shows "sorted_wrt (\<lambda>a b. \<not> lt b a) (Sort lt xs)"
  by (induction xs) (simp_all add: sorted_insert_less[OF assms])

lemma sorted_ByFreq: "sorted_wrt (\<lambda>a b. freq (h b) \<le> freq (h a)) (Sort (ByFreq_Less h) xs)"
proof -
  have "sorted_wrt (\<lambda>a b. \<not> ByFreq_Less h b a) (Sort (ByFreq_Less h) xs)"
    by (rule sorted_Sort) (auto simp: ByFreq_Less_def)
  then show ?thesis by (simp add: ByFreq_Less_def not_less)
qed

lemma sorted_ByDomain: "sorted_wrt (\<lambda>a b. Domain a \<le> Domain b) (Sort ByDomain_Less xs)"
proof -
  have "sorted_wrt (\<lambda>a b. \<not> ByDomain_Less b a) (Sort ByDomain_Less xs)"
    by (rule sorted_Sort) (auto simp: ByDomain_Less_def)
  then show ?thesis by (simp add: ByDomain_Less_def not_less)
qed

text \<open>
  Claim C6. In the model \<^verbatim>\<open>buildModel\<close> returns, the list of trusted CAs is in
  descending order of \<^verbatim>\<open>freq\<close> (equal frequencies in any order) and the list of
  masquerades is in ascending lexicographic order of \<^verbatim>\<open>Domain\<close>; each list is a
  rearrangement of what the builder was given.
\<close>

theorem buildModel_sorted:
  "sorted_wrt (\<lambda>a b. freq (h b) \<le> freq (h a)) (cas (buildModel proxiedSites ord h trustedCAs trustedMasquerades)) \<and>
   sorted_wrt (\<lambda>a b. Domain a \<le> Domain b)
     (masquerades (buildModel proxiedSites ord h trustedCAs trustedMasquerades)) \<and>
   mset (cas (buildModel proxiedSites ord h trustedCAs trustedMasquerades)) = mset (map snd trustedCAs) \<and>
   mset (masquerades (buildModel proxiedSites ord h trustedCAs trustedMasquerades)) =
     mset trustedMasquerades"
  by (simp add: buildModel_def Let_def sorted_ByFreq sorted_ByDomain mset_Sort mset_range_order)

text \<open>The example: castat 0 (two thirds) before castat 2 (one third), domains a, b, c.\<close>

lemma ex_model:
  "buildModel Map.empty [1, 0] ex_relative [(''PEM-B'', 2), (''PEM-A'', 0)] ex_stream =
     \<lparr>cas = [0, 2],
      masquerades =
        [\<lparr>Domain = ''a.example'', IpAddress = ''192.0.2.1'', RootCA = 1\<rparr>,
         \<lparr>Domain = ''b.example'', IpAddress = ''192.0.2.2'', RootCA = 0\<rparr>,
         \<lparr>Domain = ''c.example'', IpAddress = ''192.0.2.3'', RootCA = 2\<rparr>],
      proxiedsites = Map.empty\<rparr>"
  by (simp add: buildModel_def Let_def ByFreq_Less_def ByDomain_Less_def ex_stream_def
        ex_relative_def)

theorem buildModel_sorted_witness:
  "cas (buildModel Map.empty [1, 0] ex_relative [(''PEM-B'', 2), (''PEM-A'', 0)] ex_stream)
     = [0, 2] \<and>
   map Domain
     (masquerades
        (buildModel Map.empty [1, 0] ex_relative [(''PEM-B'', 2), (''PEM-A'', 0)] ex_stream))
     = [''a.example'', ''b.example'', ''c.example'']"
  using buildModel_sorted[of ex_relative Map.empty "[1, 0]" "[(''PEM-B'', 2), (''PEM-A'', 0)]"
          ex_stream]
  unfolding ex_model by simp

section \<open>Results about the domain prober\<close>

lemma Replace_concat:
  "Replace s old new = concat (map (\<lambda>c. if c = old then new else [c]) s)"
  by (induction s) simp_all

lemma Replace_removes: "old \<notin> set new \<Longrightarrow> old \<notin> set (Replace s old new)"
  by (induction s) simp_all

text \<open>
  Claim C8. On a successful probe (the domain is not blacklisted, the dial succeeds with
  a first verified chain that is not empty, and the last certificate of that chain
  loads), the worker sends one masquerade for the domain with the resolved address; its
  root CA is a new castat whose \<^verbatim>\<open>CommonName\<close> is the subject common name of the last
  certificate of the chain and whose \<^verbatim>\<open>Cert\<close> is that certificate's PEM text with
  every newline byte replaced by the two bytes backslash and n, so that \<^verbatim>\<open>Cert\<close>
  holds no newline byte.
\<close>

theorem grabCert_success:
  assumes "blacklist domain = None"
    and "DialForTimings (domain @ '':443'') = Inr cwt"
    and "VerifiedChains cwt = chain # others"
    and "chain \<noteq> []"
    and "LoadCertificateFromX509 (last chain) = Inr rootCert"
  shows "\<exists>w'. grabCert blacklist DialForTimings LoadCertificateFromX509 domain w = Inr w' \<and>
     sent w' = sent w @
       [\<lparr>Domain = domain, IpAddress = ResolvedAddr_IP_String cwt, RootCA = next_ptr w\<rparr>] \<and>
     CommonName (castats w' (next_ptr w)) = Subject_CommonName (last chain) \<and>
     Cert (castats w' (next_ptr w)) =
       concat (map (\<lambda>c. if c = CHR 0x0A then [CHR 0x5C, CHR ''n''] else [c])
                 (PEMEncoded rootCert)) \<and>
     CHR 0x0A \<notin> set (Cert (castats w' (next_ptr w))) \<and>
     freq (castats w' (next_ptr w)) = 0"
proof -
  have "CHR 0x0A \<notin> set (Replace (PEMEncoded rootCert) (CHR 0x0A) [CHR 0x5C, CHR ''n''])"
    by (rule Replace_removes) simp
  then show ?thesis
    using assms by (simp add: grabCert_def Let_def Replace_concat)
qed

text \<open>
  The outcomes of one iteration that send nothing: a blacklisted domain is only logged;
  a dial error and a certificate that does not load are logged and the loop goes on; a
  connection without a first verified chain, or with an empty one, panics.
\<close>

lemma grabCert_blacklisted:
  "blacklist domain = Some b \<Longrightarrow>
   grabCert blacklist DialForTimings LoadCertificateFromX509 domain w =
     Inr (w\<lparr>logged := logged w @
            [Tracef (''Domain '' @ domain @ '' is blacklisted, skipping'')]\<rparr>)"
  by (simp add: grabCert_def)

lemma grabCert_dial_error:
  "blacklist domain = None \<Longrightarrow> DialForTimings (domain @ '':443'') = Inl err \<Longrightarrow>
   grabCert blacklist DialForTimings LoadCertificateFromX509 domain w =
     Inr (w\<lparr>logged := logged w @
            [Tracef (''Grabbing certs for domain: '' @ domain),
             Errorf (''Unable to dial domain '' @ domain @ '': '' @ err)],
           dialed := dialed w @ [domain @ '':443'']\<rparr>)"
  by (simp add: grabCert_def Let_def)

lemma grabCert_load_error:
  "blacklist domain = None \<Longrightarrow> DialForTimings (domain @ '':443'') = Inr cwt \<Longrightarrow>
   VerifiedChains cwt = chain # others \<Longrightarrow> chain \<noteq> [] \<Longrightarrow>
   LoadCertificateFromX509 (last chain) = Inl err \<Longrightarrow>
   grabCert blacklist DialForTimings LoadCertificateFromX509 domain w =
     Inr (w\<lparr>logged := logged w @
            [Tracef (''Grabbing certs for domain: '' @ domain),
             Errorf (''Unablet to load keyman certificate: '' @ err)],
           dialed := dialed w @ [domain @ '':443'']\<rparr>)"
  by (simp add: grabCert_def Let_def)

lemma grabCert_empty_chains:
  "blacklist domain = None \<Longrightarrow> DialForTimings (domain @ '':443'') = Inr cwt \<Longrightarrow>
   VerifiedChains cwt = [] \<or> hd (VerifiedChains cwt) = [] \<Longrightarrow>
   grabCert blacklist DialForTimings LoadCertificateFromX509 domain w =
     Inl (IndexOutOfRange,
          w\<lparr>logged := logged w @ [Tracef (''Grabbing certs for domain: '' @ domain)],
            dialed := dialed w @ [domain @ '':443'']\<rparr>)"
  by (auto simp add: grabCert_def Let_def split: list.splits)

lemma untouched_grabCert:
  assumes "blacklist d \<noteq> None" "untouched d w"
  shows "untouched d (final_world (grabCert blacklist DialForTimings LoadCertificateFromX509 domain w))"
proof (cases "domain = d")
  case True
  then show ?thesis using assms by (auto simp: grabCert_def untouched_def)
next
  case False
  then show ?thesis
    using assms(2)
    by (auto simp: grabCert_def untouched_def Let_def split: option.splits sum.splits list.splits)
qed

lemma untouched_grabCerts:
  assumes "blacklist d \<noteq> None"
  shows "untouched d w \<Longrightarrow>
    untouched d (final_world (grabCerts blacklist DialForTimings LoadCertificateFromX509 domains w))"
proof (induction domains arbitrary: w)
  case Nil
  then show ?case by simp
next
  case (Cons domain rest)
  have u: "untouched d (final_world (grabCert blacklist DialForTimings LoadCertificateFromX509 domain w))"
    using assms Cons.prems by (rule untouched_grabCert)
  show ?case
  proof (cases "grabCert blacklist DialForTimings LoadCertificateFromX509 domain w")
    case (Inl e)
    then show ?thesis using u by (cases e) simp
  next
    case (Inr w')
    then show ?thesis using u Cons.IH[of w'] by simp
  qed
qed

text \<open>
  Claim C7. For a domain that is a key of the blacklist, whatever domains the worker
  receives and however its run ends, the domain's address is never handed to
  \<^verbatim>\<open>DialForTimings\<close> and no masquerade is sent for it; the iteration for the domain
  itself leaves the dialled addresses and the sent masquerades as they were, the
  blacklist test coming before the dial.
\<close>

theorem blacklisted_never_dialed:
  assumes "blacklist d \<noteq> None"
  shows "d @ '':443'' \<notin>
      set (dialed (final_world
        (grabCerts blacklist DialForTimings LoadCertificateFromX509 domains init_world))) \<and>
    d \<notin> Domain ` set (sent (final_world
        (grabCerts blacklist DialForTimings LoadCertificateFromX509 domains init_world))) \<and>
    dialed (final_world (grabCert blacklist DialForTimings LoadCertificateFromX509 d w)) = dialed w \<and>
    sent (final_world (grabCert blacklist DialForTimings LoadCertificateFromX509 d w)) = sent w"
proof -
  have "untouched d init_world" by (simp add: untouched_def init_world_def)
  with assms have "untouched d (final_world
        (grabCerts blacklist DialForTimings LoadCertificateFromX509 domains init_world))"
    by (rule untouched_grabCerts)
  then show ?thesis using assms by (auto simp: untouched_def grabCert_def)
qed

text \<open>Three domains, the second blacklisted, the third timing out.\<close>

theorem blacklisted_never_dialed_witness:
  "dialed (final_world (grabCerts ex_blacklist ex_dial ex_load
      [''a.example'', ''blacklisted.example'', ''down.example''] init_world))
     = [''a.example:443'', ''down.example:443''] \<and>
   map Domain (sent (final_world (grabCerts ex_blacklist ex_dial ex_load
      [''a.example'', ''blacklisted.example'', ''down.example''] init_world)))
     = [''a.example''] \<and>
   ex_blacklist ''blacklisted.example'' = Some True"
  using blacklisted_never_dialed[of ex_blacklist "''blacklisted.example''" ex_dial ex_load
          "[''a.example'', ''blacklisted.example'', ''down.example'']" init_world]
  by (simp add: grabCert_def ex_blacklist_def ex_dial_def ex_load_def ex_leaf_def ex_root_def
        init_world_def Let_def)

text \<open>The probe of \<^verbatim>\<open>a.example\<close>: the root of the chain, both newlines escaped.\<close>

theorem grabCert_success_witness:
  "(case grabCert ex_blacklist ex_dial ex_load ''a.example'' init_world of
      Inl e \<Rightarrow> False
    | Inr w' \<Rightarrow>
        sent w' = [\<lparr>Domain = ''a.example'', IpAddress = ''192.0.2.1'', RootCA = 0\<rparr>] \<and>
        castats w' 0 =
          \<lparr>CommonName = ''Root A'',
           Cert = ''BEGIN'' @ [CHR 0x5C, CHR ''n''] @ ''root'' @ [CHR 0x5C, CHR ''n''] @ ''END'',
           freq = 0\<rparr>)"
  using grabCert_success[of ex_blacklist "''a.example''" ex_dial
          "\<lparr>VerifiedChains = [[ex_leaf, ex_root]], ResolvedAddr_IP_String = ''192.0.2.1''\<rparr>"
          "[ex_leaf, ex_root]" "[]" ex_load
          "\<lparr>PEMEncoded = ''BEGIN'' @ [CHR 0x0A] @ ''root'' @ [CHR 0x0A] @ ''END''\<rparr>" init_world]
  by (simp add: grabCert_def ex_blacklist_def ex_dial_def ex_load_def ex_leaf_def ex_root_def
        init_world_def Let_def)








text \<open>
  Every masquerade a worker sends carries a castat whose \<^verbatim>\<open>freq\<close> is zero: the
  condition under which the frequencies of the aggregator are occurrence counts.
\<close>

lemma fresh_grabCert:
  "fresh w \<Longrightarrow>
   fresh (final_world (grabCert blacklist DialForTimings LoadCertificateFromX509 domain w))"
  by (auto simp: grabCert_def fresh_def Let_def split: option.splits sum.splits list.splits)

lemma fresh_grabCerts:
  "fresh w \<Longrightarrow>
   fresh (final_world (grabCerts blacklist DialForTimings LoadCertificateFromX509 domains w))"
proof (induction domains arbitrary: w)
  case Nil
  then show ?case by simp
next
  case (Cons domain rest)
  have u: "fresh (final_world (grabCert blacklist DialForTimings LoadCertificateFromX509 domain w))"
    using Cons.prems by (rule fresh_grabCert)
  show ?case
  proof (cases "grabCert blacklist DialForTimings LoadCertificateFromX509 domain w")
    case (Inl e)
    then show ?thesis using u by (cases e) simp
  next
    case (Inr w')
    then show ?thesis using u Cons.IH[of w'] by simp
  qed
qed

lemma grabCerts_sends_zero_freq:
  "\<forall>m \<in> set (sent (final_world
       (grabCerts blacklist DialForTimings LoadCertificateFromX509 domains init_world))).
     freq (castats (final_world
       (grabCerts blacklist DialForTimings LoadCertificateFromX509 domains init_world))
         (RootCA m)) = 0"
proof -
  have "fresh init_world" by (simp add: fresh_def init_world_def)
  then have "fresh (final_world
       (grabCerts blacklist DialForTimings LoadCertificateFromX509 domains init_world))"
    by (rule fresh_grabCerts)
  then show ?thesis by (simp add: fresh_def)
qed

section \<open>Results about the request director\<close>

text \<open>The first piece of \<^verbatim>\<open>strings.Split\<close> is the text before the first separator,
  so the index 0 is always in range.\<close>

lemma Split_first: "\<exists>rest. Split s sep = takeWhile (\<lambda>c. c \<noteq> sep) s # rest"
  by (induction s) auto

lemma isNotLoopback_eq:
  "isNotLoopback ResolveIPAddr addr =
     Inr (case ResolveIPAddr ''ip4'' (takeWhile (\<lambda>c. c \<noteq> CHR '':'') addr) of
            Inl err \<Rightarrow> False
          | Inr ip \<Rightarrow> \<not> IsLoopback ip)"
proof -
  obtain rest where "Split addr (CHR '':'') = takeWhile (\<lambda>c. c \<noteq> CHR '':'') addr # rest"
    using Split_first by blast
  then show ?thesis by (simp add: isNotLoopback_def split: sum.splits)
qed

text \<open>
  Claim C9. With \<^verbatim>\<open>ShouldProxyLoopback\<close> set, the director hands every request to
  \<^verbatim>\<open>RewriteRequest\<close> (once) and leaves the rewritten request. With it unset, a
  request whose host (the text of \<^verbatim>\<open>Host\<close> before the first colon) resolves as
  \<^verbatim>\<open>ip4\<close> to a loopback address is left as it is and \<^verbatim>\<open>RewriteRequest\<close> is not
  called.
\<close>

theorem director_loopback:
  "(ShouldProxyLoopback client \<longrightarrow>
      (\<exists>calls. Director client ResolveIPAddr req = Inr (Protocol_RewriteRequest client req, calls) \<and>
               rewritten calls = [req])) \<and>
   (\<not> ShouldProxyLoopback client \<and>
    ResolveIPAddr ''ip4'' (takeWhile (\<lambda>c. c \<noteq> CHR '':'') (Host req)) = Inr ip \<and>
    IsLoopback ip \<longrightarrow>
      (\<exists>calls. Director client ResolveIPAddr req = Inr (req, calls) \<and> rewritten calls = []))"
  by (auto simp: Director_def isNotLoopback_eq rewritten_def Let_def)

text \<open>
  Claim C10. When the resolution of the host as \<^verbatim>\<open>ip4\<close> returns an error and
  \<^verbatim>\<open>ShouldProxyLoopback\<close> is unset, \<^verbatim>\<open>isNotLoopback\<close> returns false and the
  director leaves the request as it is without calling \<^verbatim>\<open>RewriteRequest\<close>.
\<close>

theorem unresolvable_host_not_rewritten:
  assumes "ResolveIPAddr ''ip4'' (takeWhile (\<lambda>c. c \<noteq> CHR '':'') (Host req)) = Inl err"
    and "\<not> ShouldProxyLoopback client"
  shows "isNotLoopback ResolveIPAddr (Host req) = Inr False \<and>
     (\<exists>calls. Director client ResolveIPAddr req = Inr (req, calls) \<and> rewritten calls = [])"
  using assms by (auto simp: Director_def isNotLoopback_eq rewritten_def Let_def)

text \<open>Concrete requests: to localhost, to a public host and to a host that does not
  resolve.\<close>

lemma To4_v4: "IsLoopback [127, 0, 0, 1]" "\<not> IsLoopback [192, 0, 2, 7]"
  by (simp_all add: IsLoopback_def To4_def)

theorem director_loopback_witness:
  "Director ex_client ex_resolver (ex_request ''localhost:8080'') =
     Inr (ex_request ''localhost:8080'', []) \<and>
   Director (ex_client\<lparr>ShouldProxyLoopback := True\<rparr>) ex_resolver (ex_request ''localhost:8080'') =
     Inr (ex_rewrite (ex_request ''localhost:8080''),
          [RewriteRequest_call (ex_request ''localhost:8080'')]) \<and>
   Director ex_client ex_resolver (ex_request ''www.example:80'') =
     Inr (ex_rewrite (ex_request ''www.example:80''),
          [RewriteRequest_call (ex_request ''www.example:80'')])"
  using director_loopback[of ex_client ex_resolver "ex_request ''localhost:8080''" "[127, 0, 0, 1]"]
    director_loopback[of "ex_client\<lparr>ShouldProxyLoopback := True\<rparr>" ex_resolver
      "ex_request ''localhost:8080''" "[127, 0, 0, 1]"]
  by (simp add: Director_def isNotLoopback_eq ex_client_def ex_resolver_def ex_request_def
        To4_v4 Let_def)

theorem unresolvable_host_not_rewritten_witness:
  "ex_resolver ''ip4'' ''nowhere.invalid'' = Inl ''no such host'' \<and>
   isNotLoopback ex_resolver ''nowhere.invalid:80'' = Inr False \<and>
   Director ex_client ex_resolver (ex_request ''nowhere.invalid:80'') =
     Inr (ex_request ''nowhere.invalid:80'', [])"
  using unresolvable_host_not_rewritten[of ex_resolver "ex_request ''nowhere.invalid:80''"
          "''no such host''" ex_client]
  by (simp add: Director_def isNotLoopback_eq ex_client_def ex_resolver_def ex_request_def Let_def)

end
